theory Spec2Isabelle
  imports Main "HOL-Library.Word" "HOL-Library.List_Lexorder" "HOL-Library.AList"
    "HOL-Library.Sublist"
begin

section \<open>JavaScript strings\<close>

text \<open>
  A JavaScript string is a sequence of UTF-16 code units. String comparison (\<open><\<close>,
  \<open>>=\<close>, the default \<open>sort()\<close>) is the lexicographic order on code units, which
  is the order of lists from \<open>List_Lexorder\<close>.
\<close>

type_synonym jschar = "16 word"
type_synonym jsstring = "jschar list"

definition js :: "string \<Rightarrow> jsstring" where
  "js s = map of_char s"

text \<open>White space as \<open>String.prototype.trim\<close> and the regular expression class
  \<open>\s\<close> see it: the WhiteSpace and LineTerminator code points.\<close>

definition is_space :: "jschar \<Rightarrow> bool" where
  "is_space c \<longleftrightarrow>
     c \<in> {0x9, 0xA, 0xB, 0xC, 0xD, 0x20, 0xA0, 0x1680, 0x2028, 0x2029, 0x202F, 0x205F, 0x3000, 0xFEFF}
     \<or> (0x2000 \<le> c \<and> c \<le> 0x200A)"

text \<open>The class \<open>\d\<close> is \<open>[0-9]\<close>; the dot matches everything but a line terminator.\<close>

definition is_digit :: "jschar \<Rightarrow> bool" where
  "is_digit c \<longleftrightarrow> 0x30 \<le> c \<and> c \<le> 0x39"

definition is_line_terminator :: "jschar \<Rightarrow> bool" where
  "is_line_terminator c \<longleftrightarrow> c \<in> {0xA, 0xD, 0x2028, 0x2029}"

definition trim :: "jsstring \<Rightarrow> jsstring" where
  "trim s = rev (dropWhile is_space (rev (dropWhile is_space s)))"

definition starts_with :: "'a list \<Rightarrow> 'a list \<Rightarrow> bool" where
  "starts_with s p \<longleftrightarrow> take (length p) s = p"

fun str_includes :: "'a list \<Rightarrow> 'a list \<Rightarrow> bool" where
  "str_includes [] p = (p = [])"
| "str_includes (c # cs) p = (starts_with (c # cs) p \<or> str_includes cs p)"

text \<open>\<open>s.split(d)\<close> for a one-character separator: the empty string gives one empty part.\<close>

fun split_char :: "'a \<Rightarrow> 'a list \<Rightarrow> 'a list list" where
  "split_char d [] = [[]]"
| "split_char d (c # cs) =
     (if c = d then [] # split_char d cs
      else (case split_char d cs of [] \<Rightarrow> [[c]] | p # ps \<Rightarrow> (c # p) # ps))"

fun join :: "'a list \<Rightarrow> 'a list list \<Rightarrow> 'a list" where
  "join d [] = []"
| "join d [p] = p"
| "join d (p # q # ps) = p @ d @ join d (q # ps)"

text \<open>\<open>text.split(/\r?\n/)\<close>: a line feed ends a line, together with the carriage
  return right before it when there is one.\<close>

fun split_lines :: "jsstring \<Rightarrow> jsstring list" where
  "split_lines [] = [[]]"
| "split_lines [c] = (if c = 0xA then [[], []] else [[c]])"
| "split_lines (c # d # cs) =
     (if c = 0xD \<and> d = 0xA then [] # split_lines cs
      else if c = 0xA then [] # split_lines (d # cs)
      else (case split_lines (d # cs) of [] \<Rightarrow> [[c]] | p # ps \<Rightarrow> (c # p) # ps))"

text \<open>An unanchored regular expression tries every start position from the left,
  the end of the string included.\<close>

fun search :: "('a list \<Rightarrow> 'b option) \<Rightarrow> 'a list \<Rightarrow> 'b option" where
  "search m [] = m []"
| "search m (c # cs) = (case m (c # cs) of Some r \<Rightarrow> Some r | None \<Rightarrow> search m cs)"

section \<open>The regular expressions of the log parser\<close>

text \<open>
  \<open>/^\s*\(\s*['"]?[\d.]+['"]?\s*,\s*\d+\)\s*/\<close> of \<open>stripAddrPrefix\<close>. Each
  greedy piece is followed by a character outside its own class, so the backtracking
  matcher has one way through and the longest run is the run it takes. The result is
  what is left of the string after the match, or \<open>None\<close> when there is no match.
\<close>

definition opt_quote :: "jsstring \<Rightarrow> jsstring" where
  "opt_quote s = (case s of [] \<Rightarrow> s | c # cs \<Rightarrow> if c = 0x27 \<or> c = 0x22 then cs else s)"

definition is_ip_char :: "jschar \<Rightarrow> bool" where
  "is_ip_char c \<longleftrightarrow> is_digit c \<or> c = 0x2E"

definition addr_prefix_rest :: "jsstring \<Rightarrow> jsstring option" where
  "addr_prefix_rest s =
     (case dropWhile is_space s of
        [] \<Rightarrow> None
      | c # s1 \<Rightarrow>
          if c \<noteq> 0x28 then None
          else
            let s2 = opt_quote (dropWhile is_space s1);
                s3 = dropWhile is_ip_char s2
            in if takeWhile is_ip_char s2 = [] then None
               else
                 (case dropWhile is_space (opt_quote s3) of
                    [] \<Rightarrow> None
                  | c2 # s4 \<Rightarrow>
                      if c2 \<noteq> 0x2C then None
                      else
                        let s5 = dropWhile is_space s4;
                            s6 = dropWhile is_digit s5
                        in if takeWhile is_digit s5 = [] then None
                           else
                             (case s6 of
                                [] \<Rightarrow> None
                              | c3 # s7 \<Rightarrow>
                                  if c3 = 0x29 then Some (dropWhile is_space s7) else None)))"

definition stripAddrPrefix :: "jsstring \<Rightarrow> jsstring" where
  "stripAddrPrefix s =
     (if s = [] then s
      else trim (case addr_prefix_rest s of Some r \<Rightarrow> r | None \<Rightarrow> s))"

text \<open>\<open>/^(\d{4}-\d{2}-\d{2})/\<close>: the first ten code units.\<close>

fun date10 :: "jsstring \<Rightarrow> bool" where
  "date10 [y1, y2, y3, y4, h1, m1, m2, h2, d1, d2] =
     (is_digit y1 \<and> is_digit y2 \<and> is_digit y3 \<and> is_digit y4 \<and> h1 = 0x2D \<and>
      is_digit m1 \<and> is_digit m2 \<and> h2 = 0x2D \<and> is_digit d1 \<and> is_digit d2)"
| "date10 _ = False"

definition date_match :: "jsstring \<Rightarrow> jsstring option" where
  "date_match t = (if date10 (take 10 t) then Some (take 10 t) else None)"

text \<open>
  \<open>/LOGIN username=(.+?) password=(.*)$/\<close>. After the marker the lazy group takes
  one character that is no line terminator, then as few more as it can until the text
  \<open>" password="\<close> follows and the rest of the string, up to its very end, has no line
  terminator (the greedy \<open>(.*)\<close> has to reach \<open>$\<close>, and there is no \<open>m\<close>
  flag). The result is the pair of the two groups.
\<close>

definition LOGIN_marker :: jsstring where
  "LOGIN_marker = js ''LOGIN username=''"

definition password_marker :: jsstring where
  "password_marker = js '' password=''"

fun lazy_user :: "jsstring \<Rightarrow> jsstring \<Rightarrow> (jsstring \<times> jsstring) option" where
  "lazy_user u [] = None"
| "lazy_user u (c # cs) =
     (if starts_with (c # cs) password_marker
         \<and> \<not> list_ex is_line_terminator (drop (length password_marker) (c # cs))
      then Some (u, drop (length password_marker) (c # cs))
      else if is_line_terminator c then None
      else lazy_user (u @ [c]) cs)"

definition login_at :: "jsstring \<Rightarrow> (jsstring \<times> jsstring) option" where
  "login_at s =
     (if starts_with s LOGIN_marker then
        (case drop (length LOGIN_marker) s of
           [] \<Rightarrow> None
         | c # cs \<Rightarrow> if is_line_terminator c then None else lazy_user [c] cs)
      else None)"

definition login_match :: "jsstring \<Rightarrow> (jsstring \<times> jsstring) option" where
  "login_match s = search login_at s"

text \<open>\<open>/CVE-\d{4}-\d+/\<close>: the first match, its last run of digits as long as it goes.\<close>

definition cve_at :: "jsstring \<Rightarrow> jsstring option" where
  "cve_at s =
     (let r = drop 4 s in
      if starts_with s (js ''CVE-'') \<and> length (take 4 r) = 4 \<and> list_all is_digit (take 4 r)
         \<and> starts_with (drop 4 r) (js ''-'') \<and> takeWhile is_digit (drop 5 r) \<noteq> []
      then Some (take 9 s @ takeWhile is_digit (drop 5 r))
      else None)"

definition cve_match :: "jsstring \<Rightarrow> jsstring option" where
  "cve_match s = search cve_at s"

section \<open>The fortipot grammar\<close>

text \<open>A property of a parsed entry that the parser may leave out is \<open>Undefined\<close>.\<close>

datatype jsfield = Undefined | Null | Str jsstring

record entry =
  date :: "jsstring option"
  ip :: jsstring
  eventType :: jsstring
  ts :: jsstring
  loginUsername :: jsfield
  loginPassword :: jsfield

definition rawMessage_of :: "jsstring list \<Rightarrow> jsstring" where
  "rawMessage_of parts = trim (join (js ''|'') (drop 3 parts))"

definition classify :: "jsstring \<Rightarrow> jsstring" where
  "classify message =
     (if str_includes message LOGIN_marker then js ''LOGIN''
      else if starts_with message (js ''GET '') then
        (let path = takeWhile (\<lambda>c. \<not> is_space c) (drop 4 message)
         in js ''GET '' @ (if path = [] then js ''/'' else path))
      else (case cve_match message of Some m \<Rightarrow> m | None \<Rightarrow> message))"

definition fortipot :: "jsstring \<Rightarrow> entry option" where
  "fortipot line =
     (let parts = split_char 0x7C line in
      if length parts < 4 then None
      else
        let t = trim (parts ! 0);
            i = trim (parts ! 2);
            message = stripAddrPrefix (rawMessage_of parts);
            loginMatch = (if str_includes message LOGIN_marker then login_match message else None);
            et = classify message
        in Some \<lparr> date = date_match t, ip = i,
                  eventType = (if et = [] then js ''other'' else et), ts = t,
                  loginUsername = (case loginMatch of None \<Rightarrow> Undefined | Some (u, p) \<Rightarrow> Str (trim u)),
                  loginPassword = (case loginMatch of None \<Rightarrow> Undefined | Some (u, p) \<Rightarrow> Str (trim p)) \<rparr>)"

definition ssh :: "jsstring \<Rightarrow> entry option" where
  "ssh line = None"

definition rdp :: "jsstring \<Rightarrow> entry option" where
  "rdp line = None"

definition ftp :: "jsstring \<Rightarrow> entry option" where
  "ftp line = None"

section \<open>Object literals used as tables\<close>

text \<open>
  \<open>LOG_PARSERS\<close>, \<open>byDate\<close>, \<open>byIp\<close> and \<open>byEvent\<close> are object literals, so
  a key that is not an own property is looked up in \<open>Object.prototype\<close>. These are
  the names found there; the value under each of them is a function, except for
  \<open>__proto__\<close>, an accessor whose getter gives the prototype object. All of them
  are truthy.
\<close>

definition object_prototype_names :: "jsstring list" where
  "object_prototype_names =
     map js [''constructor'', ''__defineGetter__'', ''__defineSetter__'', ''hasOwnProperty'',
             ''__lookupGetter__'', ''__lookupSetter__'', ''isPrototypeOf'',
             ''propertyIsEnumerable'', ''toString'', ''valueOf'', ''__proto__'',
             ''toLocaleString'']"

definition inherited :: "jsstring \<Rightarrow> bool" where
  "inherited k \<longleftrightarrow> k \<in> set object_prototype_names"

text \<open>
  A value stored in a tally: a number, or the string that \<open>+ 1\<close> makes of a value
  that is no number. \<open>Text k n\<close> is the string conversion of \<open>Object.prototype[k]\<close>
  followed by \<open>n\<close> characters \<open>1\<close>.
\<close>

datatype jsval = Num nat | Text jsstring nat

type_synonym table = "(jsstring \<times> jsval) list"

text \<open>
  \<open>obj[k] = (obj[k] || 0) + 1\<close>. An own number \<open>n\<close> becomes \<open>n + 1\<close> (for
  \<open>n = 0\<close> through \<open>0 || 0\<close>), an own string gets a \<open>1\<close> appended. Without an
  own property the value read is the inherited one when there is one, and adding 1 to
  it gives a string; the assignment then makes an own property, except under the key
  \<open>__proto__\<close>, whose setter ignores what is no object. The list holds the own
  properties; its order is not the order in which JavaScript enumerates them.
\<close>

definition bump :: "jsstring \<Rightarrow> table \<Rightarrow> table" where
  "bump k obj =
     (case map_of obj k of
        Some (Num n) \<Rightarrow> AList.update k (Num (n + 1)) obj
      | Some (Text t n) \<Rightarrow> AList.update k (Text t (n + 1)) obj
      | None \<Rightarrow>
          if k = js ''__proto__'' then obj
          else if inherited k then AList.update k (Text k 1) obj
          else AList.update k (Num 1) obj)"

section \<open>Parsing a file\<close>

datatype error =
    Error jsstring
  | TypeError
  | SyntaxError
  | RangeError
  | URIError

datatype grammar = Fortipot | Ssh | Rdp | Ftp

fun grammar_fn :: "grammar \<Rightarrow> jsstring \<Rightarrow> entry option" where
  "grammar_fn Fortipot = fortipot"
| "grammar_fn Ssh = ssh"
| "grammar_fn Rdp = rdp"
| "grammar_fn Ftp = ftp"

definition LOG_PARSERS :: "(jsstring \<times> grammar) list" where
  "LOG_PARSERS =
     [(js ''fortipot'', Fortipot), (js ''ssh'', Ssh), (js ''rdp'', Rdp), (js ''ftp'', Ftp)]"

text \<open>
  What \<open>parseLogLines\<close> may push: the entry of a grammar, and, when the parser is
  not a grammar, a String wrapper object or a primitive string.
\<close>

datatype item = Parsed entry | StringObject jsstring | StringValue jsstring

text \<open>
  A call \<open>parser(trimmed)\<close> raises, or returns a falsy value (\<open>None\<close>), or
  returns a truthy value, which the loop pushes. A grammar never raises.
\<close>

definition grammar_call :: "(jsstring \<Rightarrow> entry option) \<Rightarrow> jsstring \<Rightarrow> error + item option" where
  "grammar_call g line = Inr (map_option Parsed (g line))"

text \<open>
  The members of \<open>Object.prototype\<close> called as \<open>parser(trimmed)\<close>, that is with
  \<open>this\<close> undefined and a string as the argument. \<open>constructor\<close> is \<open>Object\<close>,
  which wraps the string; \<open>isPrototypeOf\<close> returns \<open>false\<close> for an argument that
  is no object; \<open>toString\<close> returns \<open>[object Undefined]\<close>; the other functions
  convert \<open>this\<close> to an object first and raise a TypeError, and so does the call of
  \<open>__proto__\<close>, whose value is an object and no function.
\<close>

definition inherited_call :: "jsstring \<Rightarrow> jsstring \<Rightarrow> error + item option" where
  "inherited_call name line =
     (if name = js ''constructor'' then Inr (Some (StringObject line))
      else if name = js ''isPrototypeOf'' then Inr None
      else if name = js ''toString'' then Inr (Some (StringValue (js ''[object Undefined]'')))
      else Inl TypeError)"

text \<open>The loop of \<open>parseLogLines\<close> over the lines; a raise ends it.\<close>

fun collect :: "(jsstring \<Rightarrow> error + item option) \<Rightarrow> jsstring list \<Rightarrow> error + item list" where
  "collect parser [] = Inr []"
| "collect parser (line # lines) =
     (let trimmed = trim line in
      if trimmed = [] then collect parser lines
      else (case parser trimmed of
              Inl e \<Rightarrow> Inl e
            | Inr None \<Rightarrow> collect parser lines
            | Inr (Some parsed) \<Rightarrow>
                (case collect parser lines of
                   Inl e \<Rightarrow> Inl e
                 | Inr entries \<Rightarrow> Inr (parsed # entries))))"

text \<open>
  \<open>LOG_PARSERS[honeypotType] || LOG_PARSERS.fortipot\<close>: the fallback is taken when
  the lookup gives \<open>undefined\<close>. For a tag that names a member of
  \<open>Object.prototype\<close> the lookup gives that member, which is truthy, and the loop
  calls it on every line that is not blank.
\<close>

definition parseLogLines :: "jsstring \<Rightarrow> jsstring \<Rightarrow> error + item list" where
  "parseLogLines text honeypotType =
     (let parser =
            (case map_of LOG_PARSERS honeypotType of
               Some g \<Rightarrow> grammar_call (grammar_fn g)
             | None \<Rightarrow>
                 if inherited honeypotType then inherited_call honeypotType
                 else grammar_call fortipot);
          lines = split_lines text
      in collect parser lines)"

section \<open>The aggregator\<close>

record attempt =
  attempt_ts :: jsstring
  attempt_date :: "jsstring option"
  attempt_ip :: jsstring
  username :: jsstring
  password :: jsstring

record stats =
  byDate :: table
  byIp :: table
  byEvent :: table
  total :: nat
  loginAttempts :: "attempt list"

text \<open>The four local variables of \<open>aggregate\<close>.\<close>

record agg_state =
  st_byDate :: table
  st_byIp :: table
  st_byEvent :: table
  st_loginAttempts :: "attempt list"

text \<open>\<open>x ?? ''\<close>\<close>

definition or_empty :: "jsfield \<Rightarrow> jsstring" where
  "or_empty x = (case x of Str s \<Rightarrow> s | _ \<Rightarrow> [])"

definition event_key :: "entry \<Rightarrow> jsstring" where
  "event_key e = (if eventType e = [] then js ''other'' else eventType e)"

definition has_login :: "entry \<Rightarrow> bool" where
  "has_login e \<longleftrightarrow> loginUsername e \<noteq> Undefined \<or> loginPassword e \<noteq> Undefined"

definition attempt_of :: "entry \<Rightarrow> attempt" where
  "attempt_of e =
     \<lparr> attempt_ts = ts e, attempt_date = date e, attempt_ip = ip e,
       username = or_empty (loginUsername e), password = or_empty (loginPassword e) \<rparr>"

text \<open>
  What \<open>aggregate\<close> reads of an element of its argument. Of a String wrapper and of
  a primitive string every property it reads (\<open>date\<close>, \<open>ip\<close>, \<open>eventType\<close>,
  \<open>ts\<close>, \<open>loginUsername\<close>, \<open>loginPassword\<close>) is undefined: no date, a falsy IP
  and type, no login.
\<close>

definition as_entry :: "item \<Rightarrow> entry" where
  "as_entry x =
     (case x of
        Parsed e \<Rightarrow> e
      | _ \<Rightarrow> \<lparr> date = None, ip = [], eventType = [], ts = [],
               loginUsername = Undefined, loginPassword = Undefined \<rparr>)"

definition agg_step :: "entry \<Rightarrow> agg_state \<Rightarrow> agg_state" where
  "agg_step e s =
     (let s1 = (case date e of
                  None \<Rightarrow> s
                | Some d \<Rightarrow> if d = [] then s else s\<lparr>st_byDate := bump d (st_byDate s)\<rparr>);
          s2 = (if ip e = [] then s1 else s1\<lparr>st_byIp := bump (ip e) (st_byIp s1)\<rparr>);
          s3 = s2\<lparr>st_byEvent := bump (event_key e) (st_byEvent s2)\<rparr>
      in if has_login e
         then s3\<lparr>st_loginAttempts := st_loginAttempts s3 @ [attempt_of e]\<rparr>
         else s3)"

definition agg_init :: agg_state where
  "agg_init = \<lparr> st_byDate = [], st_byIp = [], st_byEvent = [], st_loginAttempts = [] \<rparr>"

definition aggregate :: "entry list \<Rightarrow> stats" where
  "aggregate entries =
     (let s = fold agg_step entries agg_init in
      \<lparr> byDate = st_byDate s, byIp = st_byIp s, byEvent = st_byEvent s,
        total = length entries, loginAttempts = st_loginAttempts s \<rparr>)"

section \<open>The file selector and the fetcher\<close>

text \<open>
  The remote store as one run sees it. \<open>fetch\<close> either rejects (no response at
  all) or resolves to a response with its \<open>ok\<close> flag, its status and what reading
  the body gives: for a listing the outcome of \<open>res.json()\<close>, for a file the
  outcome of \<open>res.text()\<close>, \<open>None\<close> when the read fails.
\<close>

datatype 'b fetched = Rejected | Response bool nat 'b

record listing_item =
  ftype :: jsstring
  fname :: jsstring

datatype json_body = BadJson | NotArray | Items "listing_item list"

record store =
  list_response :: "jsstring \<Rightarrow> json_body fetched"
  content_response :: "jsstring \<Rightarrow> jsstring \<Rightarrow> jsstring option fetched"

text \<open>The decimal digits of a number, as a template literal prints it.\<close>

definition digit_char :: "nat \<Rightarrow> jschar" where
  "digit_char n = of_nat (48 + n)"

fun decimal :: "nat \<Rightarrow> jsstring" where
  "decimal n = (if n < 10 then [digit_char n] else decimal (n div 10) @ [digit_char (n mod 10)])"

text \<open>\<open>/^\d{4}-\d{2}-\d{2}_.*\.log$/\<close>: the greedy dot-star gives back until
  \<open>.log\<close> ends the name, and what it keeps has no line terminator.\<close>

definition log_name :: "jsstring \<Rightarrow> bool" where
  "log_name n \<longleftrightarrow>
     date10 (take 10 n) \<and> starts_with (drop 10 n) (js ''_'') \<and>
     (let r = drop 11 n in
      4 \<le> length r \<and> drop (length r - 4) r = js ''.log''
      \<and> \<not> list_ex is_line_terminator (take (length r - 4) r))"

definition listLogFiles :: "store \<Rightarrow> jsstring \<Rightarrow> error + jsstring list" where
  "listLogFiles st folder =
     (case list_response st folder of
        Rejected \<Rightarrow> Inl TypeError
      | Response ok status body \<Rightarrow>
          if \<not> ok then Inl (Error (js ''Failed to list '' @ folder @ js '': '' @ decimal status))
          else
            (case body of
               BadJson \<Rightarrow> Inl SyntaxError
             | NotArray \<Rightarrow> Inl (Error (js ''Invalid API response''))
             | Items data \<Rightarrow>
                 Inr (sort (map fname
                   (filter (\<lambda>f. ftype f = js ''file'' \<and> log_name (fname f)) data)))))"

text \<open>\<open>encodeURIComponent\<close> raises a URIError on a surrogate that has no partner.\<close>

definition is_high_surrogate :: "jschar \<Rightarrow> bool" where
  "is_high_surrogate c \<longleftrightarrow> 0xD800 \<le> c \<and> c \<le> 0xDBFF"

definition is_low_surrogate :: "jschar \<Rightarrow> bool" where
  "is_low_surrogate c \<longleftrightarrow> 0xDC00 \<le> c \<and> c \<le> 0xDFFF"

fun well_formed :: "jsstring \<Rightarrow> bool" where
  "well_formed [] = True"
| "well_formed [c] = (\<not> is_high_surrogate c \<and> \<not> is_low_surrogate c)"
| "well_formed (c # d # cs) =
     (if is_high_surrogate c then is_low_surrogate d \<and> well_formed cs
      else \<not> is_low_surrogate c \<and> well_formed (d # cs))"

definition fetchLogContent :: "store \<Rightarrow> jsstring \<Rightarrow> jsstring \<Rightarrow> error + jsstring" where
  "fetchLogContent st folder filename =
     (if \<not> well_formed filename then Inl URIError
      else
        (case content_response st folder filename of
           Rejected \<Rightarrow> Inl TypeError
         | Response ok status body \<Rightarrow>
             if \<not> ok then Inr []
             else (case body of Some t \<Rightarrow> Inr t | None \<Rightarrow> Inr [])))"

text \<open>
  A \<open>Date\<close> by its calendar date in UTC, which is all that
  \<open>toISOString().slice(0, 10)\<close> reads of it. Years from 0 to 9999 print with four
  digits, the others with a sign and six; an invalid date raises a RangeError.
\<close>

datatype jsdate = InvalidDate | UTC int nat nat

definition pad :: "nat \<Rightarrow> nat \<Rightarrow> jsstring" where
  "pad w n = map (\<lambda>i. digit_char (n div 10 ^ (w - 1 - i) mod 10)) [0..<w]"

definition iso_date :: "jsdate \<Rightarrow> error + jsstring" where
  "iso_date d =
     (case d of
        InvalidDate \<Rightarrow> Inl RangeError
      | UTC y m dd \<Rightarrow>
          Inr (take 10
            ((if 0 \<le> y \<and> y \<le> 9999 then pad 4 (nat y)
              else (if y < 0 then js ''-'' else js ''+'') @ pad 6 (nat \<bar>y\<bar>))
             @ js ''-'' @ pad 2 m @ js ''-'' @ pad 2 dd)))"

text \<open>\<open>getDateRange('all')\<close>: \<open>new Date(2000, 0, 1)\<close> is midnight in the local zone,
  which in UTC is still 31 December 1999 when the zone is ahead of UTC; \<open>now\<close> is
  the clock's reading.\<close>

definition getDateRange_all :: "bool \<Rightarrow> jsdate \<Rightarrow> jsdate \<times> jsdate" where
  "getDateRange_all zone_ahead now = (if zone_ahead then UTC 1999 12 31 else UTC 2000 1 1, now)"

definition filterFilesByDate :: "jsstring list \<Rightarrow> jsdate \<times> jsdate \<Rightarrow> error + jsstring list" where
  "filterFilesByDate files dateRange =
     (case iso_date (fst dateRange) of
        Inl e \<Rightarrow> Inl e
      | Inr startStr \<Rightarrow>
          (case iso_date (snd dateRange) of
             Inl e \<Rightarrow> Inl e
           | Inr endStr \<Rightarrow>
               Inr (filter (\<lambda>f. let dateStr = take 10 f
                                in dateStr \<ge> startStr \<and> dateStr \<le> endStr) files)))"

section \<open>The pipeline\<close>

text \<open>The loop of \<open>loadAndParseLogs\<close> over the selected files; the first error ends it.\<close>

fun fetch_all :: "store \<Rightarrow> jsstring \<Rightarrow> jsstring list \<Rightarrow> error + item list" where
  "fetch_all st folder [] = Inr []"
| "fetch_all st folder (filename # rest) =
     (case fetchLogContent st folder filename of
        Inl e \<Rightarrow> Inl e
      | Inr text \<Rightarrow>
          (case parseLogLines text (if folder = js ''fortipot'' then js ''fortipot'' else folder) of
             Inl e \<Rightarrow> Inl e
           | Inr entries \<Rightarrow>
               (case fetch_all st folder rest of
                  Inl e \<Rightarrow> Inl e
                | Inr others \<Rightarrow> Inr (entries @ others))))"

definition loadAndParseLogs :: "store \<Rightarrow> jsstring \<Rightarrow> jsdate \<times> jsdate \<Rightarrow> error + stats" where
  "loadAndParseLogs st folder dateRange =
     (case listLogFiles st folder of
        Inl e \<Rightarrow> Inl e
      | Inr files \<Rightarrow>
          (case filterFilesByDate files dateRange of
             Inl e \<Rightarrow> Inl e
           | Inr filtered \<Rightarrow>
               (case fetch_all st folder filtered of
                  Inl e \<Rightarrow> Inl e
                | Inr allEntries \<Rightarrow> Inr (aggregate (map as_entry allEntries)))))"

section \<open>The message of a line and the login pattern\<close>

text \<open>The message that the grammar classifies, and what it is for a message to match
  \<open>LOGIN username=<user> password=<rest>\<close>: a user run of at least one character,
  and no line terminator in the user run or in the rest.\<close>

definition full_login_pattern :: "jsstring \<Rightarrow> bool" where
  "full_login_pattern m \<longleftrightarrow>
     (\<exists>a u p. m = a @ LOGIN_marker @ u @ password_marker @ p \<and> u \<noteq> []
        \<and> \<not> list_ex is_line_terminator (u @ p))"

definition message_of :: "jsstring \<Rightarrow> jsstring" where
  "message_of line = stripAddrPrefix (rawMessage_of (split_char 0x7C line))"

section \<open>Reading the result\<close>

text \<open>The keys that the loop of \<open>aggregate\<close> counts, in input order, the tally a
  list of keys leaves in an empty object, the number stored under a key, and the sum of
  the numbers stored.\<close>

definition date_keys :: "entry list \<Rightarrow> jsstring list" where
  "date_keys es =
     List.map_filter (\<lambda>e. case date e of None \<Rightarrow> None | Some d \<Rightarrow> if d = [] then None else Some d) es"

definition ip_keys :: "entry list \<Rightarrow> jsstring list" where
  "ip_keys es = filter (\<lambda>k. k \<noteq> []) (map ip es)"

definition tally :: "jsstring list \<Rightarrow> table" where
  "tally ks = fold bump ks []"

definition count_in :: "table \<Rightarrow> jsstring \<Rightarrow> nat" where
  "count_in obj k = (case map_of obj k of Some (Num n) \<Rightarrow> n | _ \<Rightarrow> 0)"

definition values_sum :: "table \<Rightarrow> nat" where
  "values_sum obj = sum_list (map (\<lambda>(k, v). case v of Num n \<Rightarrow> n | Text t n \<Rightarrow> 0) obj)"

section \<open>Sample entries\<close>

definition proto_entry :: entry where
  "proto_entry =
     \<lparr> date = Some (js ''2026-02-18''), ip = js ''1.2.3.4'', eventType = js ''__proto__'',
       ts = js ''2026-02-18T00:00:00'', loginUsername = Undefined, loginPassword = Undefined \<rparr>"

definition bare_entry :: entry where
  "bare_entry =
     \<lparr> date = None, ip = [], eventType = js ''hello'', ts = js ''x'',
       loginUsername = Undefined, loginPassword = Undefined \<rparr>"

definition undated_entry :: entry where
  "undated_entry =
     \<lparr> date = None, ip = js ''1.2.3.4'', eventType = js ''hello'', ts = js ''x'',
       loginUsername = Undefined, loginPassword = Undefined \<rparr>"

definition login_entry :: entry where
  "login_entry =
     \<lparr> date = Some (js ''2026-02-18''), ip = js ''1.2.3.4'', eventType = js ''LOGIN'',
       ts = js ''2026-02-18T00:00:00'', loginUsername = Str (js ''admin''),
       loginPassword = Str (js ''1234'') \<rparr>"

definition marker_only_entry :: entry where
  "marker_only_entry =
     \<lparr> date = Some (js ''2026-02-18''), ip = js ''1.2.3.4'', eventType = js ''LOGIN'',
       ts = js ''2026-02-18T00:00:00'', loginUsername = Undefined, loginPassword = Undefined \<rparr>"

definition partial_login_line :: jsstring where
  "partial_login_line = js ''2026-02-18T00:00:00|INFO|1.2.3.4|LOGIN username=admin''"

definition empty_password_line :: jsstring where
  "empty_password_line = js ''2026-02-18T00:00:00|INFO|1.2.3.4|LOGIN username=admin password=''"

definition empty_password_entry :: entry where
  "empty_password_entry =
     \<lparr> date = Some (js ''2026-02-18''), ip = js ''1.2.3.4'', eventType = js ''LOGIN'',
       ts = js ''2026-02-18T00:00:00'', loginUsername = Str (js ''admin''),
       loginPassword = Str [] \<rparr>"

definition prefixed_get_line :: jsstring where
  "prefixed_get_line =
     js ''2026-02-18T00:00:00|INFO|1.2.3.4|('' @ [0x27] @ js ''5.6.7.8'' @ [0x27]
       @ js '', 443) GET /x''"

definition rejecting_store :: store where
  "rejecting_store =
     \<lparr> list_response =
         (\<lambda>folder. Response True 200
            (Items [\<lparr> ftype = js ''file'', fname = js ''2026-02-17_fortipot.log'' \<rparr>,
                    \<lparr> ftype = js ''file'', fname = js ''2026-02-18_fortipot.log'' \<rparr>])),
       content_response =
         (\<lambda>folder filename.
            if filename = js ''2026-02-17_fortipot.log'' then Rejected
            else Response True 200 (Some (js ''2026-02-18T00:00:00|INFO|1.2.3.4|GET /x''))) \<rparr>"

definition get_entry :: entry where
  "get_entry =
     \<lparr> date = Some (js ''2026-02-18''), ip = js ''1.2.3.4'', eventType = js ''GET /x'',
       ts = js ''2026-02-18T00:00:00'', loginUsername = Undefined, loginPassword = Undefined \<rparr>"

section \<open>Dates as numbers, and the names of log files\<close>

definition digit_val :: "jschar \<Rightarrow> nat" where
  "digit_val c = unat c - 48"

fun number_of :: "jsstring \<Rightarrow> nat" where
  "number_of [] = 0"
| "number_of (c # cs) = digit_val c * 10 ^ length cs + number_of cs"

type_synonym ymd = "nat \<times> nat \<times> nat"

definition ymd_le :: "ymd \<Rightarrow> ymd \<Rightarrow> bool" where
  "ymd_le a b \<longleftrightarrow>
     (case a of (y, m, d) \<Rightarrow> case b of (y', m', d') \<Rightarrow>
        y < y' \<or> (y = y' \<and> (m < m' \<or> (m = m' \<and> d \<le> d'))))"

definition name_date :: "jsstring \<Rightarrow> ymd" where
  "name_date n =
     (number_of (take 4 n), number_of (take 2 (drop 5 n)), number_of (take 2 (drop 8 n)))"

definition log_shape :: "jsstring \<Rightarrow> bool" where
  "log_shape n \<longleftrightarrow>
     (\<exists>y m d rest.
        n = y @ js ''-'' @ m @ js ''-'' @ d @ js ''_'' @ rest @ js ''.log''
        \<and> length y = 4 \<and> length m = 2 \<and> length d = 2
        \<and> list_all is_digit y \<and> list_all is_digit m \<and> list_all is_digit d
        \<and> \<not> list_ex is_line_terminator rest)"

definition select_files :: "store \<Rightarrow> jsstring \<Rightarrow> jsdate \<times> jsdate \<Rightarrow> error + jsstring list" where
  "select_files st folder dateRange =
     (case listLogFiles st folder of
        Inl e \<Rightarrow> Inl e
      | Inr files \<Rightarrow> filterFilesByDate files dateRange)"

definition iso10 :: "ymd \<Rightarrow> jsstring" where
  "iso10 t = (case t of (y, m, d) \<Rightarrow> pad 4 y @ js ''-'' @ pad 2 m @ js ''-'' @ pad 2 d)"

definition listed_items :: "listing_item list" where
  "listed_items =
     [\<lparr> ftype = js ''file'', fname = js ''2026-02-18_fortipot.log'' \<rparr>,
      \<lparr> ftype = js ''file'', fname = js ''2026-02-17_fortipot.log'' \<rparr>,
      \<lparr> ftype = js ''file'', fname = js ''2025-01-01_old.log'' \<rparr>,
      \<lparr> ftype = js ''file'', fname = js ''not-a-date.log'' \<rparr>,
      \<lparr> ftype = js ''dir'', fname = js ''2026-02-18'' @ js ''_'' @ js ''dir'' @ js ''.log'' \<rparr>,
      \<lparr> ftype = js ''file'',
        fname = js ''2026-02-18'' @ js ''_'' @ (js ''a'' @ [0x2028] @ js ''b'') @ js ''.log'' \<rparr>]"

definition listed_store :: store where
  "listed_store =
     \<lparr> list_response = (\<lambda>folder. Response True 200 (Items listed_items)),
       content_response = (\<lambda>folder filename. Response True 200 (Some [])) \<rparr>"

section \<open>The address prefix and the CVE identifier as shapes\<close>

text \<open>
  The strings that the specification calls a tuple-like address prefix and a CVE
  identifier, written as shapes, to be compared with the scanners above. The prefix
  is \<open>(\<close>, an address, a comma, a port and \<open>)\<close>: the address is a run of digits
  and dots, with or without a quote on each side, the port a run of digits, and white
  space may stand after the bracket, before the comma and after it. The identifier is
  \<open>CVE-\<close>, four digits, \<open>-\<close> and a run of digits.
\<close>

definition quote_opt :: "jsstring \<Rightarrow> bool" where
  "quote_opt q \<longleftrightarrow> q = [] \<or> q = [0x27] \<or> q = [0x22]"

definition addr_shape :: "jsstring \<Rightarrow> bool" where
  "addr_shape x \<longleftrightarrow>
     (\<exists>w1 q1 a q2 w2 w3 port.
        x = js ''('' @ w1 @ q1 @ a @ q2 @ w2 @ js '','' @ w3 @ port @ js '')''
        \<and> list_all is_space w1 \<and> list_all is_space w2 \<and> list_all is_space w3
        \<and> quote_opt q1 \<and> quote_opt q2
        \<and> a \<noteq> [] \<and> list_all is_ip_char a
        \<and> port \<noteq> [] \<and> list_all is_digit port)"

definition cve_shape :: "jsstring \<Rightarrow> bool" where
  "cve_shape t \<longleftrightarrow>
     (\<exists>y n. t = js ''CVE-'' @ y @ js ''-'' @ n \<and> length y = 4 \<and> list_all is_digit y
        \<and> n \<noteq> [] \<and> list_all is_digit n)"

section \<open>Lines and fields\<close>

lemma split_char_not_Nil: "split_char d s \<noteq> []"
  by (induction s) (auto split: list.splits)

lemma length_split_char: "length (split_char d s) = Suc (length (filter (\<lambda>c. c = d) s))"
proof (induction s)
  case Nil
  show ?case by simp
next
  case (Cons c cs)
  then show ?case
    using split_char_not_Nil [of d cs] by (cases "split_char d cs") auto
qed

lemma collect_grammar:
  "collect (grammar_call g) ls
     = Inr (map Parsed (List.map_filter g (filter (\<lambda>l. l \<noteq> []) (map trim ls))))"
  by (induction ls)
     (auto simp: Let_def List.map_filter_simps grammar_call_def split: option.splits)

lemma LOG_PARSERS_fortipot: "map_of LOG_PARSERS (js ''fortipot'') = Some Fortipot"
  by (simp add: LOG_PARSERS_def)

text \<open>
  Claim C2. The fortipot grammar gives no entry exactly for a line that splits at the
  pipes into fewer than four fields, whatever its timestamp looks like; the number of
  fields is the number of pipes plus one. \<open>parseLogLines\<close> trims every line, drops
  the empty ones before the grammar sees them, and keeps, in order, the entry of each
  other line that has one.
\<close>

theorem fortipot_none_iff_fewer_than_four_fields:
  "(fortipot line = None \<longleftrightarrow> length (split_char 0x7C line) < 4)
   \<and> length (split_char 0x7C line) = Suc (length (filter (\<lambda>c. c = 0x7C) line))
   \<and> parseLogLines text (js ''fortipot'')
       = Inr (map Parsed
           (List.map_filter fortipot (filter (\<lambda>l. l \<noteq> []) (map trim (split_lines text)))))"
proof -
  have a: "fortipot line = None \<longleftrightarrow> length (split_char 0x7C line) < 4"
    by (simp add: fortipot_def Let_def)
  have b: "length (split_char 0x7C line) = Suc (length (filter (\<lambda>c. c = 0x7C) line))"
    by (rule length_split_char)
  have c: "parseLogLines text (js ''fortipot'')
       = Inr (map Parsed
           (List.map_filter fortipot (filter (\<lambda>l. l \<noteq> []) (map trim (split_lines text)))))"
    unfolding parseLogLines_def Let_def LOG_PARSERS_fortipot
    by (simp add: collect_grammar)
  from a b c show ?thesis by blast
qed

section \<open>The aggregator as a count of keys\<close>

lemma agg_step_fields:
  "st_byDate (agg_step e s) = fold bump (date_keys [e]) (st_byDate s)"
  "st_byIp (agg_step e s) = fold bump (ip_keys [e]) (st_byIp s)"
  "st_byEvent (agg_step e s) = bump (event_key e) (st_byEvent s)"
  "st_loginAttempts (agg_step e s) = st_loginAttempts s @ map attempt_of (filter has_login [e])"
  by (simp_all add: agg_step_def date_keys_def ip_keys_def List.map_filter_simps Let_def
        split: option.splits)

lemma date_keys_Cons: "date_keys (e # es) = date_keys [e] @ date_keys es"
  by (simp add: date_keys_def List.map_filter_simps split: option.splits)

lemma ip_keys_Cons: "ip_keys (e # es) = ip_keys [e] @ ip_keys es"
  by (simp add: ip_keys_def)

lemma fold_agg_step:
  "fold agg_step es s =
     \<lparr> st_byDate = fold bump (date_keys es) (st_byDate s),
       st_byIp = fold bump (ip_keys es) (st_byIp s),
       st_byEvent = fold bump (map event_key es) (st_byEvent s),
       st_loginAttempts = st_loginAttempts s @ map attempt_of (filter has_login es) \<rparr>"
proof (induction es arbitrary: s)
  case Nil
  show ?case by (simp add: date_keys_def ip_keys_def List.map_filter_simps)
next
  case (Cons e es)
  have "fold agg_step (e # es) s = fold agg_step es (agg_step e s)"
    by simp
  also have "\<dots> =
     \<lparr> st_byDate = fold bump (date_keys es) (st_byDate (agg_step e s)),
       st_byIp = fold bump (ip_keys es) (st_byIp (agg_step e s)),
       st_byEvent = fold bump (map event_key es) (st_byEvent (agg_step e s)),
       st_loginAttempts = st_loginAttempts (agg_step e s) @ map attempt_of (filter has_login es) \<rparr>"
    by (rule Cons.IH)
  also have "\<dots> =
     \<lparr> st_byDate = fold bump (date_keys (e # es)) (st_byDate s),
       st_byIp = fold bump (ip_keys (e # es)) (st_byIp s),
       st_byEvent = fold bump (map event_key (e # es)) (st_byEvent s),
       st_loginAttempts = st_loginAttempts s @ map attempt_of (filter has_login (e # es)) \<rparr>"
    unfolding agg_step_fields date_keys_Cons [of e es] ip_keys_Cons [of e es]
    by simp
  finally show ?case .
qed

lemma aggregate_fields:
  "byDate (aggregate es) = tally (date_keys es)"
  "byIp (aggregate es) = tally (ip_keys es)"
  "byEvent (aggregate es) = tally (map event_key es)"
  "total (aggregate es) = length es"
  "loginAttempts (aggregate es) = map attempt_of (filter has_login es)"
  by (simp_all add: aggregate_def Let_def fold_agg_step agg_init_def tally_def)

lemma inherited_proto: "inherited (js ''__proto__'')"
  by (simp add: inherited_def object_prototype_names_def)

lemma tally_snoc: "tally (ks @ [x]) = bump x (tally ks)"
  by (simp add: tally_def)

lemma map_of_bump_other: "k \<noteq> x \<Longrightarrow> map_of (bump x obj) k = map_of obj k"
proof (cases "map_of obj x")
  case None
  then show "k \<noteq> x \<Longrightarrow> map_of (bump x obj) k = map_of obj k"
    by (simp add: bump_def update_conv')
next
  case (Some v)
  then show "k \<noteq> x \<Longrightarrow> map_of (bump x obj) k = map_of obj k"
    by (cases v) (simp_all add: bump_def update_conv')
qed

lemma map_of_tally:
  "\<not> inherited k \<Longrightarrow>
   map_of (tally ks) k = (if count_list ks k = 0 then None else Some (Num (count_list ks k)))"
proof (induction ks rule: rev_induct)
  case Nil
  show ?case by (simp add: tally_def)
next
  case (snoc x ks)
  show ?case
  proof (cases "x = k")
    case False
    then show ?thesis
      using snoc by (simp add: tally_snoc map_of_bump_other)
  next
    case True
    have "k \<noteq> js ''__proto__''"
      using snoc.prems inherited_proto by auto
    then show ?thesis
      using snoc True by (simp add: tally_snoc bump_def update_conv')
  qed
qed

lemma count_in_tally: "\<not> inherited k \<Longrightarrow> count_in (tally ks) k = count_list ks k"
  by (simp add: count_in_def map_of_tally)

lemma values_sum_update:
  "values_sum (AList.update k (Num m) al) + count_in al k = values_sum al + m"
  by (induction al) (auto simp: values_sum_def count_in_def split: jsval.splits)

lemma values_sum_tally:
  "\<forall>k \<in> set ks. \<not> inherited k \<Longrightarrow> values_sum (tally ks) = length ks"
proof (induction ks rule: rev_induct)
  case Nil
  show ?case by (simp add: tally_def values_sum_def)
next
  case (snoc x ks)
  have nx: "\<not> inherited x" and px: "x \<noteq> js ''__proto__''"
    using snoc.prems inherited_proto by auto
  have ih: "values_sum (tally ks) = length ks"
    using snoc by simp
  show ?case
  proof (cases "count_list ks x = 0")
    case True
    then have "map_of (tally ks) x = None" and "count_in (tally ks) x = 0"
      using nx by (simp_all add: map_of_tally count_in_tally)
    then show ?thesis
      using values_sum_update [of x 1 "tally ks"] ih nx px
      by (simp add: tally_snoc bump_def)
  next
    case False
    then have "map_of (tally ks) x = Some (Num (count_list ks x))"
      and "count_in (tally ks) x = count_list ks x"
      using nx by (simp_all add: map_of_tally count_in_tally)
    then show ?thesis
      using values_sum_update [of x "count_list ks x + 1" "tally ks"] ih
      by (simp add: tally_snoc bump_def)
  qed
qed

lemma date_keys_append: "date_keys (xs @ ys) = date_keys xs @ date_keys ys"
  by (simp add: date_keys_def List.map_filter_def)

lemma ip_keys_append: "ip_keys (xs @ ys) = ip_keys xs @ ip_keys ys"
  by (simp add: ip_keys_def)

lemma count_list_append: "count_list (xs @ ys) k = count_list xs k + count_list ys k"
  by (induction xs) auto

text \<open>
  Where no key is a name of \<open>Object.prototype\<close>, the values of the by-type tally
  add up to the number of entries, and those of the by-IP tally to the number of
  entries with an IP, which is less as soon as one entry has none.
\<close>

lemma aggregate_sums_without_inherited_keys:
  assumes "\<forall>e \<in> set es. \<not> inherited (event_key e) \<and> \<not> inherited (ip e)"
  shows "values_sum (byEvent (aggregate es)) = total (aggregate es)
         \<and> total (aggregate es) = length es
         \<and> values_sum (byIp (aggregate es)) \<le> total (aggregate es)
         \<and> ((\<exists>e \<in> set es. ip e = []) \<longrightarrow> values_sum (byIp (aggregate es)) < total (aggregate es))"
proof -
  have ev: "values_sum (tally (map event_key es)) = length (map event_key es)"
    using assms by (intro values_sum_tally) auto
  have ipk: "values_sum (tally (ip_keys es)) = length (ip_keys es)"
    using assms by (intro values_sum_tally) (auto simp: ip_keys_def)
  have le: "length (ip_keys es) \<le> length es"
    by (simp add: ip_keys_def)
  have lt: "length (ip_keys es) < length es" if "\<exists>e \<in> set es. ip e = []"
  proof -
    from that obtain e where "e \<in> set es" "ip e = []" by blast
    then have "[] \<in> set (map ip es)" by force
    then have "length (filter (\<lambda>k. k \<noteq> []) (map ip es)) < length (map ip es)"
      by (intro length_filter_less) auto
    then show ?thesis by (simp add: ip_keys_def)
  qed
  show ?thesis
    using ev ipk le lt by (simp add: aggregate_fields)
qed

text \<open>
  Claim C1, at the log line \<open>2026-02-18T00:00:00|INFO|1.2.3.4|__proto__\<close>. The
  parser gives one entry whose type is the message \<open>__proto__\<close>. In \<open>aggregate\<close>
  the read \<open>byEvent["__proto__"]\<close> gives the prototype object, and the assignment of
  the string that \<open>+ 1\<close> makes of it goes to the \<open>__proto__\<close> setter, which
  drops it: \<open>byEvent\<close> stays without own properties, its values add up to 0, and
  \<open>total\<close> is 1.
\<close>

theorem proto_message_missing_from_byEvent:
  "parseLogLines (js ''2026-02-18T00:00:00|INFO|1.2.3.4|__proto__'') (js ''fortipot'')
     = Inr [Parsed proto_entry]
   \<and> byEvent (aggregate [proto_entry]) = []
   \<and> values_sum (byEvent (aggregate [proto_entry])) = 0
   \<and> total (aggregate [proto_entry]) = 1"
  by code_simp

text \<open>
  Claim C8 fails for an entry that has neither a date nor an IP: the line
  \<open>x|INFO||hello\<close> parses to such an entry, and \<open>aggregate\<close> counts it in
  \<open>total\<close> but leaves \<open>byIp\<close> empty, since \<open>if (e.ip)\<close> guards the by-IP count.
\<close>

theorem unset_date_empty_ip_not_in_byIp:
  "fortipot (js ''x|INFO||hello'') = Some bare_entry
   \<and> date bare_entry = None
   \<and> byIp (aggregate [bare_entry]) = []
   \<and> total (aggregate [bare_entry]) = 1"
  by code_simp

text \<open>
  Claim C8, amended. An entry without a date, wherever it stands in the input, leaves
  \<open>byDate\<close> as it would be without it and adds one to \<open>total\<close>. It adds one to
  the count under its event type when that type is no name of \<open>Object.prototype\<close>,
  and one to the count under its IP when the IP is not empty and no name of
  \<open>Object.prototype\<close>; when the IP is empty it leaves \<open>byIp\<close> as it is.
\<close>

theorem unset_date_event_still_counted:
  assumes "date e = None"
  shows "byDate (aggregate (es1 @ e # es2)) = byDate (aggregate (es1 @ es2))
     \<and> total (aggregate (es1 @ e # es2)) = Suc (total (aggregate (es1 @ es2)))
     \<and> (\<not> inherited (event_key e) \<longrightarrow>
          count_in (byEvent (aggregate (es1 @ e # es2))) (event_key e)
            = Suc (count_in (byEvent (aggregate (es1 @ es2))) (event_key e)))
     \<and> (ip e \<noteq> [] \<and> \<not> inherited (ip e) \<longrightarrow>
          count_in (byIp (aggregate (es1 @ e # es2))) (ip e)
            = Suc (count_in (byIp (aggregate (es1 @ es2))) (ip e)))
     \<and> (ip e = [] \<longrightarrow> byIp (aggregate (es1 @ e # es2)) = byIp (aggregate (es1 @ es2)))"
proof -
  have d: "date_keys (es1 @ e # es2) = date_keys (es1 @ es2)"
    using assms(1) by (simp add: date_keys_def List.map_filter_def)
  have i1: "ip_keys (es1 @ e # es2) = ip_keys (es1 @ es2)" if "ip e = []"
    using that by (simp add: ip_keys_def)
  have i2: "count_list (ip_keys (es1 @ e # es2)) (ip e) = Suc (count_list (ip_keys (es1 @ es2)) (ip e))"
    if "ip e \<noteq> []"
    using that by (simp add: ip_keys_def count_list_append)
  have ev: "count_list (map event_key (es1 @ e # es2)) (event_key e)
            = Suc (count_list (map event_key (es1 @ es2)) (event_key e))"
    by (simp add: count_list_append)
  show ?thesis
    using d i1 i2 ev by (simp add: aggregate_fields count_in_tally)
qed

theorem unset_date_event_still_counted_witness:
  "date undated_entry = None \<and> \<not> inherited (event_key undated_entry)
   \<and> \<not> inherited (ip undated_entry) \<and> ip undated_entry \<noteq> []
   \<and> byDate (aggregate ([bare_entry] @ undated_entry # [login_entry]))
       = byDate (aggregate ([bare_entry] @ [login_entry]))
   \<and> count_in (byEvent (aggregate ([bare_entry] @ undated_entry # [login_entry]))) (js ''hello'')
       = Suc (count_in (byEvent (aggregate ([bare_entry] @ [login_entry]))) (js ''hello''))
   \<and> total (aggregate ([bare_entry] @ undated_entry # [login_entry]))
       = Suc (total (aggregate ([bare_entry] @ [login_entry])))
   \<and> count_in (byIp (aggregate ([bare_entry] @ undated_entry # [login_entry]))) (js ''1.2.3.4'')
       = Suc (count_in (byIp (aggregate ([bare_entry] @ [login_entry]))) (js ''1.2.3.4''))"
proof -
  have h1: "date undated_entry = None"
    by (simp add: undated_entry_def)
  have h2: "\<not> inherited (event_key undated_entry)"
    by (simp add: undated_entry_def event_key_def inherited_def object_prototype_names_def js_def)
  have h3: "\<not> inherited (ip undated_entry)"
    by (simp add: undated_entry_def inherited_def object_prototype_names_def js_def)
  have v: "event_key undated_entry = js ''hello''" "ip undated_entry = js ''1.2.3.4''"
    "js ''1.2.3.4'' \<noteq> []"
    by (simp_all add: undated_entry_def event_key_def js_def)
  show ?thesis
    using unset_date_event_still_counted [OF h1, of "[bare_entry]" "[login_entry]"] h1 h2 h3 v(3)
    unfolding v(1,2) by simp
qed

text \<open>
  Claim C9. The login attempts of the result are the entries that carry a login
  property, in input order, each with the entry's timestamp, date, IP, user name and
  password (the empty string for a property that is null or missing). \<open>aggregate\<close>
  starts from its own empty accumulators and reads nothing else, so the result is a
  function of the entries alone.
\<close>

theorem credentialAttempts_in_input_order:
  "loginAttempts (aggregate es) = map attempt_of (filter has_login es)
   \<and> subseq (map attempt_ts (loginAttempts (aggregate es))) (map ts es)
   \<and> (has_login e \<longrightarrow>
        attempt_ts (attempt_of e) = ts e \<and> attempt_ip (attempt_of e) = ip e
        \<and> username (attempt_of e) = or_empty (loginUsername e)
        \<and> password (attempt_of e) = or_empty (loginPassword e))"
proof -
  have c: "attempt_ts \<circ> attempt_of = ts"
    by (simp add: fun_eq_iff attempt_of_def)
  have "subseq (map ts (filter has_login es)) (map ts es)"
    by (intro subseq_map subseq_filter_left)
  then show ?thesis
    by (simp add: aggregate_fields c) (simp add: attempt_of_def)
qed


theorem credentialAttempts_in_input_order_witness:
  "has_login login_entry
   \<and> loginAttempts (aggregate [bare_entry, login_entry, undated_entry, login_entry])
       = [attempt_of login_entry, attempt_of login_entry]
   \<and> username (attempt_of login_entry) = js ''admin''
   \<and> password (attempt_of login_entry) = js ''1234''"
proof -
  have h: "has_login login_entry" "\<not> has_login bare_entry" "\<not> has_login undated_entry"
    by (simp_all add: has_login_def login_entry_def bare_entry_def undated_entry_def)
  have v: "or_empty (loginUsername login_entry) = js ''admin''"
    "or_empty (loginPassword login_entry) = js ''1234''"
    by (simp_all add: login_entry_def or_empty_def)
  show ?thesis
    using credentialAttempts_in_input_order
            [of "[bare_entry, login_entry, undated_entry, login_entry]" login_entry] h v
    by simp
qed

section \<open>Searching a string\<close>

lemma starts_with_prefix: "starts_with s p \<longleftrightarrow> prefix p s"
  unfolding starts_with_def prefix_def
  by (metis append_eq_conv_conj append_take_drop_id)

lemma str_includes_sublist: "str_includes s p \<longleftrightarrow> sublist p s"
  by (induction s) (auto simp: starts_with_prefix sublist_Cons_right)

lemma prefix_short: "prefix p (y @ z) \<Longrightarrow> length p \<le> length y \<Longrightarrow> prefix p y"
  by (auto simp: prefix_append)

lemma prefix_overlap:
  assumes "prefix p (x @ p @ t)" and "x \<noteq> []"
  shows "prefix p (x @ butlast p)"
proof (cases "p = []")
  case True
  then show ?thesis by simp
next
  case False
  then have "x @ p @ t = (x @ butlast p) @ (last p # t)"
    by simp
  moreover have "length p \<le> length (x @ butlast p)"
    using assms(2) False by (cases x) auto
  ultimately show ?thesis
    using assms(1) prefix_short by metis
qed

subsection \<open>search\<close>

lemma search_hit: "f s = Some r \<Longrightarrow> search f s = Some r"
  by (cases s) auto

lemma search_skip:
  "(\<forall>j < length a. f (drop j (a @ s)) = None) \<Longrightarrow> search f (a @ s) = search f s"
proof (induction a)
  case Nil
  show ?case by simp
next
  case (Cons c a)
  have "f ((c # a) @ s) = None"
    using Cons.prems by (metis drop0 length_greater_0_conv list.distinct(1))
  moreover have "\<forall>j < length a. f (drop j (a @ s)) = None"
  proof (intro allI impI)
    fix j assume "j < length a"
    then have "f (drop (Suc j) ((c # a) @ s)) = None"
      using Cons.prems by (metis Suc_less_eq length_Cons)
    then show "f (drop j (a @ s)) = None" by simp
  qed
  ultimately show ?case
    using Cons.IH by simp
qed

lemma search_SomeD: "search f s = Some r \<Longrightarrow> \<exists>a b. s = a @ b \<and> f b = Some r"
proof (induction s)
  case Nil
  then show ?case by simp
next
  case (Cons c cs)
  show ?case
  proof (cases "f (c # cs)")
    case (Some r')
    then have "f (c # cs) = Some r" using Cons.prems by simp
    then show ?thesis by (metis append_Nil)
  next
    case None
    then have "search f cs = Some r" using Cons.prems by simp
    then obtain a b where "cs = a @ b" "f b = Some r" using Cons.IH by blast
    then show ?thesis by (metis append_Cons)
  qed
qed

lemma search_NoneD: "search f (a @ b) = None \<Longrightarrow> f b = None"
proof (induction a)
  case Nil
  then show ?case by (cases b) (auto split: option.splits)
next
  case (Cons c a)
  then show ?case by (auto split: option.splits)
qed

subsection \<open>The login pattern\<close>

lemma password_marker_not_Nil: "password_marker \<noteq> []"
  by (simp add: password_marker_def js_def)

lemma lazy_user_hit:
  "r \<noteq> [] \<Longrightarrow> starts_with r password_marker \<Longrightarrow>
   \<not> list_ex is_line_terminator (drop (length password_marker) r) \<Longrightarrow>
   lazy_user acc r = Some (acc, drop (length password_marker) r)"
  by (cases r) simp_all

lemma lazy_user_marker: 
  "\<not> list_ex is_line_terminator p \<Longrightarrow> lazy_user acc (password_marker @ p) = Some (acc, p)"
  using lazy_user_hit [of "password_marker @ p" acc] password_marker_not_Nil
  by (simp add: starts_with_def)

lemma lazy_user_SomeD:
  "lazy_user acc r = Some (u, p) \<Longrightarrow>
   \<exists>u'. u = acc @ u' \<and> r = u' @ password_marker @ p \<and> \<not> list_ex is_line_terminator (u' @ p)"
proof (induction r arbitrary: acc)
  case Nil
  then show ?case by simp
next
  case (Cons c cs)
  show ?case
  proof (cases "starts_with (c # cs) password_marker
         \<and> \<not> list_ex is_line_terminator (drop (length password_marker) (c # cs))")
    case True
    then have up: "u = acc" "p = drop (length password_marker) (c # cs)"
      using Cons.prems by auto
    have "c # cs = password_marker @ p"
      using True up by (metis append_take_drop_id starts_with_def)
    then show ?thesis
      using True up by auto
  next
    case False
    then have nl: "\<not> is_line_terminator c" and rec: "lazy_user (acc @ [c]) cs = Some (u, p)"
      using Cons.prems by (auto split: if_splits)
    then obtain u' where "u = (acc @ [c]) @ u'" "cs = u' @ password_marker @ p"
      "\<not> list_ex is_line_terminator (u' @ p)"
      using Cons.IH by blast
    then have "u = acc @ (c # u')" "c # cs = (c # u') @ password_marker @ p"
      "\<not> list_ex is_line_terminator ((c # u') @ p)"
      using nl by auto
    then show ?thesis by blast
  qed
qed

lemma lazy_user_not_None:
  "\<not> list_ex is_line_terminator (u' @ p) \<Longrightarrow> lazy_user acc (u' @ password_marker @ p) \<noteq> None"
proof (induction u' arbitrary: acc)
  case Nil
  then show ?case by (simp add: lazy_user_marker)
next
  case (Cons c u')
  then have "lazy_user (acc @ [c]) (u' @ password_marker @ p) \<noteq> None"
    and "\<not> is_line_terminator c"
    by auto
  then show ?case by auto
qed

lemma lazy_user_exact:
  assumes "\<not> list_ex is_line_terminator (u' @ p)"
    and "\<not> sublist password_marker (u' @ butlast password_marker)"
  shows "lazy_user acc (u' @ password_marker @ p) = Some (acc @ u', p)"
  using assms
proof (induction u' arbitrary: acc)
  case Nil
  then show ?case by (simp add: lazy_user_marker)
next
  case (Cons c u')
  have np: "\<not> prefix password_marker ((c # u') @ butlast password_marker)"
    and ns: "\<not> sublist password_marker (u' @ butlast password_marker)"
    using Cons.prems(2) by (auto simp: sublist_Cons_right)
  have "\<not> prefix password_marker ((c # u') @ password_marker @ p)"
    using np prefix_overlap [of password_marker "c # u'" p] by blast
  then have ns': "\<not> starts_with (c # u' @ password_marker @ p) password_marker"
    by (simp add: starts_with_prefix)
  have nl: "\<not> is_line_terminator c" and rest: "\<not> list_ex is_line_terminator (u' @ p)"
    using Cons.prems(1) by auto
  have "lazy_user (acc @ [c]) (u' @ password_marker @ p) = Some ((acc @ [c]) @ u', p)"
    using Cons.IH [OF rest ns] .
  then show ?case
    using ns' nl by simp
qed

lemma login_at_SomeD:
  assumes "login_at s = Some (u, p)"
  shows "s = LOGIN_marker @ u @ password_marker @ p \<and> u \<noteq> []
         \<and> \<not> list_ex is_line_terminator (u @ p)"
proof -
  have sw: "starts_with s LOGIN_marker"
    using assms by (auto simp: login_at_def split: if_splits)
  then have s: "s = LOGIN_marker @ drop (length LOGIN_marker) s"
    by (metis append_take_drop_id starts_with_def)
  obtain c cs where d: "drop (length LOGIN_marker) s = c # cs"
    using assms sw by (auto simp: login_at_def split: list.splits)
  have nl: "\<not> is_line_terminator c" and lz: "lazy_user [c] cs = Some (u, p)"
    using assms sw d by (auto simp: login_at_def split: if_splits)
  obtain u' where "u = [c] @ u'" "cs = u' @ password_marker @ p"
    "\<not> list_ex is_line_terminator (u' @ p)"
    using lazy_user_SomeD [OF lz] by blast
  then show ?thesis
    using s d nl by auto
qed

lemma login_at_pattern:
  assumes "u \<noteq> []" and "\<not> list_ex is_line_terminator (u @ p)"
  shows "login_at (LOGIN_marker @ u @ password_marker @ p) \<noteq> None"
proof -
  obtain c u' where u: "u = c # u'" using assms(1) by (cases u) auto
  have "lazy_user [c] (u' @ password_marker @ p) \<noteq> None"
    using assms(2) u by (intro lazy_user_not_None) auto
  then show ?thesis
    using assms(2) u by (simp add: login_at_def starts_with_def)
qed

lemma login_at_exact:
  assumes "u \<noteq> []" and "\<not> list_ex is_line_terminator (u @ p)"
    and "\<not> sublist password_marker (tl u @ butlast password_marker)"
  shows "login_at (LOGIN_marker @ u @ password_marker @ p) = Some (u, p)"
proof -
  obtain c u' where u: "u = c # u'" using assms(1) by (cases u) auto
  have "lazy_user [c] (u' @ password_marker @ p) = Some ([c] @ u', p)"
    using assms(2,3) u by (intro lazy_user_exact) auto
  then show ?thesis
    using assms(2) u by (simp add: login_at_def starts_with_def)
qed

lemma login_match_None_iff: "login_match m = None \<longleftrightarrow> \<not> full_login_pattern m"
proof
  assume n: "login_match m = None"
  show "\<not> full_login_pattern m"
  proof
    assume "full_login_pattern m"
    then obtain a u p where m: "m = a @ LOGIN_marker @ u @ password_marker @ p"
      and "u \<noteq> []" "\<not> list_ex is_line_terminator (u @ p)"
      unfolding full_login_pattern_def by blast
    then have "login_at (LOGIN_marker @ u @ password_marker @ p) \<noteq> None"
      using login_at_pattern [of u p] by simp
    moreover have "login_at (LOGIN_marker @ u @ password_marker @ p) = None"
    proof (rule search_NoneD)
      show "search login_at (a @ LOGIN_marker @ u @ password_marker @ p) = None"
        using n unfolding login_match_def m .
    qed
    ultimately show False by simp
  qed
next
  assume np: "\<not> full_login_pattern m"
  show "login_match m = None"
  proof (rule ccontr)
    assume "login_match m \<noteq> None"
    then obtain u p where "search login_at m = Some (u, p)"
      unfolding login_match_def by auto
    then have "\<exists>a b. m = a @ b \<and> login_at b = Some (u, p)"
      by (rule search_SomeD)
    then obtain a b where "m = a @ b" "login_at b = Some (u, p)"
      by blast
    then have "m = a @ LOGIN_marker @ u @ password_marker @ p \<and> u \<noteq> []
         \<and> \<not> list_ex is_line_terminator (u @ p)"
      using login_at_SomeD [of b u p] by simp
    then have "full_login_pattern m"
      unfolding full_login_pattern_def by blast
    then show False using np by simp
  qed
qed

lemma login_match_exact:
  assumes "u \<noteq> []" and "\<not> list_ex is_line_terminator (u @ p)"
    and "\<not> sublist password_marker (tl u @ butlast password_marker)"
    and "\<not> sublist LOGIN_marker (a @ butlast LOGIN_marker)"
  shows "login_match (a @ LOGIN_marker @ u @ password_marker @ p) = Some (u, p)"
proof -
  let ?s = "LOGIN_marker @ u @ password_marker @ p"
  have "\<forall>j < length a. login_at (drop j (a @ ?s)) = None"
  proof (intro allI impI)
    fix j assume j: "j < length a"
    have "\<not> starts_with (drop j (a @ ?s)) LOGIN_marker"
    proof
      assume "starts_with (drop j (a @ ?s)) LOGIN_marker"
      then have "prefix LOGIN_marker (drop j a @ LOGIN_marker @ (u @ password_marker @ p))"
        using j by (simp add: starts_with_prefix)
      moreover have "drop j a \<noteq> []"
        using j by simp
      ultimately have "prefix LOGIN_marker (drop j a @ butlast LOGIN_marker)"
        by (rule prefix_overlap)
      then obtain zs where zs: "drop j a @ butlast LOGIN_marker = LOGIN_marker @ zs"
        unfolding prefix_def by blast
      have "a @ butlast LOGIN_marker = take j a @ (drop j a @ butlast LOGIN_marker)"
        by simp
      then have "a @ butlast LOGIN_marker = take j a @ LOGIN_marker @ zs"
        unfolding zs .
      then have "sublist LOGIN_marker (a @ butlast LOGIN_marker)"
        unfolding sublist_def by blast
      then show False using assms(4) by simp
    qed
    then show "login_at (drop j (a @ ?s)) = None"
      by (simp add: login_at_def)
  qed
  then have "search login_at (a @ ?s) = search login_at ?s"
    by (rule search_skip)
  then show ?thesis
    using login_at_exact [OF assms(1,2,3)] by (simp add: login_match_def search_hit)
qed

section \<open>Login lines\<close>

lemma fortipot_Some:
  assumes "4 \<le> length (split_char 0x7C line)"
  shows "fortipot line = Some
     \<lparr> date = date_match (trim (split_char 0x7C line ! 0)),
       ip = trim (split_char 0x7C line ! 2),
       eventType = (if classify (message_of line) = [] then js ''other''
                    else classify (message_of line)),
       ts = trim (split_char 0x7C line ! 0),
       loginUsername =
         (case (if str_includes (message_of line) LOGIN_marker
                then login_match (message_of line) else None) of
            None \<Rightarrow> Undefined | Some (u, p) \<Rightarrow> Str (trim u)),
       loginPassword =
         (case (if str_includes (message_of line) LOGIN_marker
                then login_match (message_of line) else None) of
            None \<Rightarrow> Undefined | Some (u, p) \<Rightarrow> Str (trim p)) \<rparr>"
  using assms by (simp add: fortipot_def Let_def message_of_def)

lemma LOGIN_not_inherited: "\<not> inherited (js ''LOGIN'')"
  by (simp add: inherited_def object_prototype_names_def js_def)

lemma aggregate_insert_login_free:
  assumes "\<not> has_login e" and "event_key e = k" and "\<not> inherited k"
  shows "count_in (byEvent (aggregate (es1 @ e # es2))) k
           = Suc (count_in (byEvent (aggregate (es1 @ es2))) k)
       \<and> total (aggregate (es1 @ e # es2)) = Suc (total (aggregate (es1 @ es2)))
       \<and> loginAttempts (aggregate (es1 @ e # es2)) = loginAttempts (aggregate (es1 @ es2))"
  using assms by (simp add: aggregate_fields count_in_tally count_list_append)

lemma aggregate_insert_login:
  assumes "has_login e"
  shows "loginAttempts (aggregate (es1 @ e # es2))
           = loginAttempts (aggregate es1) @ attempt_of e # loginAttempts (aggregate es2)"
  using assms by (simp add: aggregate_fields)

text \<open>
  Claim C5. A line of at least four fields whose message holds the marker
  \<open>LOGIN username=\<close> but does not match the full pattern still gives an entry, of
  type \<open>LOGIN\<close> and without login properties. Wherever it stands among the
  entries, \<open>aggregate\<close> adds one to the \<open>LOGIN\<close> count and to \<open>total\<close> for it
  and no login attempt.
\<close>

theorem partial_login_keeps_event:
  assumes "4 \<le> length (split_char 0x7C line)"
    and "sublist LOGIN_marker (message_of line)"
    and "\<not> full_login_pattern (message_of line)"
  shows "\<exists>e. fortipot line = Some e \<and> eventType e = js ''LOGIN''
           \<and> loginUsername e = Undefined \<and> loginPassword e = Undefined
           \<and> (\<forall>es1 es2.
                 count_in (byEvent (aggregate (es1 @ e # es2))) (js ''LOGIN'')
                   = Suc (count_in (byEvent (aggregate (es1 @ es2))) (js ''LOGIN''))
                 \<and> total (aggregate (es1 @ e # es2)) = Suc (total (aggregate (es1 @ es2)))
                 \<and> loginAttempts (aggregate (es1 @ e # es2))
                   = loginAttempts (aggregate (es1 @ es2)))"
proof -
  have inc: "str_includes (message_of line) LOGIN_marker"
    using assms(2) by (simp add: str_includes_sublist)
  have nm: "login_match (message_of line) = None"
    using assms(3) by (simp add: login_match_None_iff)
  have cl: "classify (message_of line) = js ''LOGIN''"
    using inc by (simp add: classify_def)
  have ne: "js ''LOGIN'' \<noteq> []"
    by (simp add: js_def)
  define e where "e = \<lparr> date = date_match (trim (split_char 0x7C line ! 0)),
       ip = trim (split_char 0x7C line ! 2), eventType = js ''LOGIN'',
       ts = trim (split_char 0x7C line ! 0),
       loginUsername = Undefined, loginPassword = Undefined \<rparr>"
  have f: "fortipot line = Some e"
    unfolding fortipot_Some [OF assms(1)] e_def using inc nm cl ne by simp
  have k: "event_key e = js ''LOGIN''" and nl: "\<not> has_login e"
    using ne by (simp_all add: e_def event_key_def has_login_def)
  have "eventType e = js ''LOGIN''" "loginUsername e = Undefined" "loginPassword e = Undefined"
    by (simp_all add: e_def)
  then show ?thesis
    using f aggregate_insert_login_free [OF nl k LOGIN_not_inherited] by blast
qed

theorem partial_login_keeps_event_witness:
  "4 \<le> length (split_char 0x7C partial_login_line)
   \<and> sublist LOGIN_marker (message_of partial_login_line)
   \<and> \<not> full_login_pattern (message_of partial_login_line)
   \<and> (\<exists>e. fortipot partial_login_line = Some e \<and> eventType e = js ''LOGIN''
           \<and> loginUsername e = Undefined \<and> loginPassword e = Undefined
           \<and> loginAttempts (aggregate ([login_entry] @ e # []))
               = loginAttempts (aggregate ([login_entry] @ [])))"
proof -
  have h1: "4 \<le> length (split_char 0x7C partial_login_line)"
    by code_simp
  have "str_includes (message_of partial_login_line) LOGIN_marker"
    by code_simp
  then have h2: "sublist LOGIN_marker (message_of partial_login_line)"
    by (simp add: str_includes_sublist)
  have "login_match (message_of partial_login_line) = None"
    by code_simp
  then have h3: "\<not> full_login_pattern (message_of partial_login_line)"
    by (simp add: login_match_None_iff)
  show ?thesis
    using partial_login_keeps_event [OF h1 h2 h3] h1 h2 h3 by blast
qed

text \<open>
  Claim C4 fails at its own example: after \<open>LOGIN username=\<close> the group
  \<open>(.+?)\<close> needs a character before \<open>" password="\<close>, so the message
  \<open>LOGIN username= password=x\<close> does not match, the entry has no login
  properties, and \<open>aggregate\<close> records no attempt.
\<close>

theorem empty_username_has_no_pair:
  "fortipot (js ''2026-02-18T00:00:00|INFO|1.2.3.4|LOGIN username= password=x'')
     = Some marker_only_entry
   \<and> loginUsername marker_only_entry = Undefined
   \<and> loginPassword marker_only_entry = Undefined
   \<and> loginAttempts (aggregate [marker_only_entry]) = []"
  by code_simp

lemma search_SomeD_first:
  "search f s = Some r \<Longrightarrow>
   \<exists>a b. s = a @ b \<and> f b = Some r \<and> (\<forall>j < length a. f (drop j s) = None)"
proof (induction s)
  case Nil
  then show ?case by simp
next
  case (Cons c cs)
  show ?case
  proof (cases "f (c # cs)")
    case (Some r')
    then have fr: "f (c # cs) = Some r" using Cons.prems by simp
    show ?thesis
      apply (rule exI [of _ "[]"])
      apply (rule exI [of _ "c # cs"])
      using fr by simp
  next
    case None
    then have "search f cs = Some r" using Cons.prems by simp
    then have "\<exists>a b. cs = a @ b \<and> f b = Some r \<and> (\<forall>j < length a. f (drop j cs) = None)"
      by (rule Cons.IH)
    then obtain a b where ab: "cs = a @ b" "f b = Some r"
      and n: "\<forall>j < length a. f (drop j cs) = None"
      by (elim exE conjE)
    have all: "\<forall>j < length (c # a). f (drop j (c # cs)) = None"
    proof (intro allI impI)
      fix j assume j: "j < length (c # a)"
      show "f (drop j (c # cs)) = None"
      proof (cases j)
        case 0
        then show ?thesis using None by simp
      next
        case (Suc k)
        then show ?thesis using n j by simp
      qed
    qed
    have "c # cs = (c # a) @ b \<and> f b = Some r
          \<and> (\<forall>j < length (c # a). f (drop j (c # cs)) = None)"
      using ab all by simp
    then show ?thesis
      apply -
      apply (rule exI [of _ "c # a"])
      apply (rule exI [of _ b])
      by assumption
  qed
qed

lemma lazy_user_shortest:
  "lazy_user acc r = Some (u, p) \<Longrightarrow> r = u' @ password_marker @ p' \<Longrightarrow>
   \<not> list_ex is_line_terminator p' \<Longrightarrow> length u \<le> length acc + length u'"
proof (induction r arbitrary: acc u')
  case Nil
  then show ?case by simp
next
  case (Cons c cs)
  show ?case
  proof (cases "starts_with (c # cs) password_marker
         \<and> \<not> list_ex is_line_terminator (drop (length password_marker) (c # cs))")
    case True
    then have "u = acc" using Cons.prems(1) by simp
    then show ?thesis by simp
  next
    case False
    then have rec: "lazy_user (acc @ [c]) cs = Some (u, p)"
      using Cons.prems(1) by (auto split: if_splits)
    have "u' \<noteq> []"
    proof
      assume "u' = []"
      then have r: "c # cs = password_marker @ p'"
        using Cons.prems(2) by simp
      have "starts_with (c # cs) password_marker"
        unfolding r by (simp add: starts_with_def)
      moreover have "drop (length password_marker) (c # cs) = p'"
        unfolding r by simp
      ultimately show False
        using False Cons.prems(3) by simp
    qed
    then obtain u'' where u': "u' = c # u''" and cs: "cs = u'' @ password_marker @ p'"
      using Cons.prems(2) by (cases u') auto
    have "length u \<le> length (acc @ [c]) + length u''"
      using rec cs Cons.prems(3) by (rule Cons.IH)
    then show ?thesis
      unfolding u' by simp
  qed
qed

lemma login_at_shortest:
  assumes "login_at (LOGIN_marker @ u' @ password_marker @ p') = Some (u, p)"
    and "u' \<noteq> []" and "\<not> list_ex is_line_terminator p'"
  shows "length u \<le> length u'"
proof -
  obtain c u'' where u': "u' = c # u''"
    using assms(2) by (cases u') auto
  have "lazy_user [c] (u'' @ password_marker @ p') = Some (u, p)"
    using assms(1) unfolding u'
    by (simp add: login_at_def starts_with_def split: if_splits)
  then have "length u \<le> length [c] + length u''"
    using refl assms(3) by (rule lazy_user_shortest)
  then show ?thesis
    unfolding u' by simp
qed

lemma login_match_SomeD:
  assumes "login_match m = Some (u, p)"
  shows "\<exists>a. m = a @ LOGIN_marker @ u @ password_marker @ p \<and> u \<noteq> []
           \<and> \<not> list_ex is_line_terminator (u @ p)
           \<and> (\<forall>a' u' p'. m = a' @ LOGIN_marker @ u' @ password_marker @ p' \<and> u' \<noteq> []
                  \<and> \<not> list_ex is_line_terminator (u' @ p')
                \<longrightarrow> length a \<le> length a' \<and> (length a = length a' \<longrightarrow> length u \<le> length u'))"
proof -
  have "\<exists>a b. m = a @ b \<and> login_at b = Some (u, p)
           \<and> (\<forall>j < length a. login_at (drop j m) = None)"
    using assms unfolding login_match_def by (rule search_SomeD_first)
  then obtain a b where m: "m = a @ b" and lb: "login_at b = Some (u, p)"
    and first: "\<forall>j < length a. login_at (drop j m) = None"
    by blast
  have b: "b = LOGIN_marker @ u @ password_marker @ p" and un: "u \<noteq> []"
    and nl: "\<not> list_ex is_line_terminator (u @ p)"
    using login_at_SomeD [OF lb] by simp_all
  have least: "length a \<le> length a' \<and> (length a = length a' \<longrightarrow> length u \<le> length u')"
    if d: "m = a' @ LOGIN_marker @ u' @ password_marker @ p'" and u': "u' \<noteq> []"
      and nl': "\<not> list_ex is_line_terminator (u' @ p')"
    for a' u' p'
  proof -
    have at': "login_at (LOGIN_marker @ u' @ password_marker @ p') \<noteq> None"
      using u' nl' by (rule login_at_pattern)
    have dr: "drop (length a') m = LOGIN_marker @ u' @ password_marker @ p'"
      unfolding d by simp
    have le: "length a \<le> length a'"
    proof (rule ccontr)
      assume "\<not> length a \<le> length a'"
      then have "login_at (drop (length a') m) = None"
        using first by simp
      then show False using at' dr by simp
    qed
    have "length u \<le> length u'" if eq: "length a = length a'"
    proof -
      have "a @ b = a' @ (LOGIN_marker @ u' @ password_marker @ p')"
        using m d by simp
      then have "b = LOGIN_marker @ u' @ password_marker @ p'"
        using eq by simp
      then have "login_at (LOGIN_marker @ u' @ password_marker @ p') = Some (u, p)"
        using lb by simp
      then show ?thesis
        using u' nl' by (intro login_at_shortest [of u' p' u p]) simp_all
    qed
    then show ?thesis using le by blast
  qed
  have "m = a @ LOGIN_marker @ u @ password_marker @ p"
    using m b by simp
  then show ?thesis
    using un nl least by blast
qed

text \<open>
  Claim C4, amended. A line of at least four fields whose message matches
  \<open>/LOGIN username=(.+?) password=(.*)$/\<close>, that is, which can be read as
  \<open>a @ LOGIN username= @ u @  password= @ p\<close> with \<open>u\<close> of at least one character
  and no line terminator in \<open>u\<close> and \<open>p\<close>, gives an entry of type \<open>LOGIN\<close> with a
  pair. The pair is what the pattern captures: among all such readings of the
  message the one with the shortest \<open>a\<close> and, for that \<open>a\<close>, the shortest \<open>u\<close>;
  the entry carries \<open>u\<close> and \<open>p\<close> of that reading, each trimmed, and \<open>aggregate\<close>
  records them in the entry's place among the attempts, whether or not a trimmed
  field is empty.
\<close>

theorem full_login_recorded:
  assumes "4 \<le> length (split_char 0x7C line)"
    and "full_login_pattern (message_of line)"
  shows "\<exists>e a u p. fortipot line = Some e \<and> eventType e = js ''LOGIN''
           \<and> message_of line = a @ LOGIN_marker @ u @ password_marker @ p \<and> u \<noteq> []
           \<and> \<not> list_ex is_line_terminator (u @ p)
           \<and> (\<forall>a' u' p'. message_of line = a' @ LOGIN_marker @ u' @ password_marker @ p'
                  \<and> u' \<noteq> [] \<and> \<not> list_ex is_line_terminator (u' @ p')
                \<longrightarrow> length a \<le> length a' \<and> (length a = length a' \<longrightarrow> length u \<le> length u'))
           \<and> loginUsername e = Str (trim u) \<and> loginPassword e = Str (trim p)
           \<and> (\<forall>es1 es2.
                 loginAttempts (aggregate (es1 @ e # es2))
                   = loginAttempts (aggregate es1)
                     @ \<lparr> attempt_ts = ts e, attempt_date = date e, attempt_ip = ip e,
                         username = trim u, password = trim p \<rparr>
                     # loginAttempts (aggregate es2))"
proof -
  have "login_match (message_of line) \<noteq> None"
    using assms(2) by (simp add: login_match_None_iff)
  then obtain u p where lm: "login_match (message_of line) = Some (u, p)"
    by (cases "login_match (message_of line)") auto
  have "\<exists>a. message_of line = a @ LOGIN_marker @ u @ password_marker @ p \<and> u \<noteq> []
           \<and> \<not> list_ex is_line_terminator (u @ p)
           \<and> (\<forall>a' u' p'. message_of line = a' @ LOGIN_marker @ u' @ password_marker @ p'
                  \<and> u' \<noteq> [] \<and> \<not> list_ex is_line_terminator (u' @ p')
                \<longrightarrow> length a \<le> length a' \<and> (length a = length a' \<longrightarrow> length u \<le> length u'))"
    using lm by (rule login_match_SomeD)
  then obtain a where d: "message_of line = a @ LOGIN_marker @ u @ password_marker @ p"
    and un: "u \<noteq> []" and nl: "\<not> list_ex is_line_terminator (u @ p)"
    and least: "\<forall>a' u' p'. message_of line = a' @ LOGIN_marker @ u' @ password_marker @ p'
                  \<and> u' \<noteq> [] \<and> \<not> list_ex is_line_terminator (u' @ p')
                \<longrightarrow> length a \<le> length a' \<and> (length a = length a' \<longrightarrow> length u \<le> length u')"
    by (elim exE conjE)
  have inc: "str_includes (message_of line) LOGIN_marker"
    unfolding d by (simp add: str_includes_sublist)
  have cl: "classify (message_of line) = js ''LOGIN''"
    using inc by (simp add: classify_def)
  have ne: "js ''LOGIN'' \<noteq> []"
    by (simp add: js_def)
  define e where "e = \<lparr> date = date_match (trim (split_char 0x7C line ! 0)),
       ip = trim (split_char 0x7C line ! 2), eventType = js ''LOGIN'',
       ts = trim (split_char 0x7C line ! 0),
       loginUsername = Str (trim u), loginPassword = Str (trim p) \<rparr>"
  have f: "fortipot line = Some e"
    unfolding fortipot_Some [OF assms(1)] e_def using inc lm cl ne by simp
  have hl: "has_login e"
    by (simp add: e_def has_login_def)
  have at: "attempt_of e = \<lparr> attempt_ts = ts e, attempt_date = date e, attempt_ip = ip e,
                         username = trim u, password = trim p \<rparr>"
    by (simp add: attempt_of_def e_def or_empty_def)
  have ev: "eventType e = js ''LOGIN''" and lu: "loginUsername e = Str (trim u)"
    and lp: "loginPassword e = Str (trim p)"
    by (simp_all add: e_def)
  have agg: "\<forall>es1 es2.
                 loginAttempts (aggregate (es1 @ e # es2))
                   = loginAttempts (aggregate es1)
                     @ \<lparr> attempt_ts = ts e, attempt_date = date e, attempt_ip = ip e,
                         username = trim u, password = trim p \<rparr>
                     # loginAttempts (aggregate es2)"
    using aggregate_insert_login [OF hl] unfolding at by simp
  show ?thesis
    apply (rule exI [of _ e])
    apply (rule exI [of _ a])
    apply (rule exI [of _ u])
    apply (rule exI [of _ p])
    apply (intro conjI)
            apply (rule f)
           apply (rule ev)
          apply (rule d)
         apply (rule un)
        apply (rule nl)
       apply (rule least)
      apply (rule lu)
     apply (rule lp)
    apply (rule agg)
    done
qed

theorem full_login_recorded_witness:
  "4 \<le> length (split_char 0x7C empty_password_line)
   \<and> full_login_pattern (message_of empty_password_line)
   \<and> fortipot empty_password_line = Some empty_password_entry
   \<and> loginUsername empty_password_entry = Str (js ''admin'')
   \<and> loginPassword empty_password_entry = Str []
   \<and> loginAttempts (aggregate ([] @ empty_password_entry # []))
       = loginAttempts (aggregate [])
         @ \<lparr> attempt_ts = ts empty_password_entry, attempt_date = date empty_password_entry,
             attempt_ip = ip empty_password_entry, username = js ''admin'', password = [] \<rparr>
         # loginAttempts (aggregate [])"
proof -
  have h1: "4 \<le> length (split_char 0x7C empty_password_line)"
    by code_simp
  have "login_match (message_of empty_password_line) \<noteq> None"
    by code_simp
  then have h2: "full_login_pattern (message_of empty_password_line)"
    by (simp add: login_match_None_iff)
  have c: "fortipot empty_password_line = Some empty_password_entry"
    by code_simp
  obtain e a u p where f: "fortipot empty_password_line = Some e"
    and lu: "loginUsername e = Str (trim u)" and lp: "loginPassword e = Str (trim p)"
    and agg: "\<forall>es1 es2.
                 loginAttempts (aggregate (es1 @ e # es2))
                   = loginAttempts (aggregate es1)
                     @ \<lparr> attempt_ts = ts e, attempt_date = date e, attempt_ip = ip e,
                         username = trim u, password = trim p \<rparr>
                     # loginAttempts (aggregate es2)"
    using full_login_recorded [OF h1 h2] by (elim exE conjE)
  have e: "e = empty_password_entry"
    using f c by simp
  have u: "trim u = js ''admin''" and p: "trim p = []"
    using lu lp unfolding e by (simp_all add: empty_password_entry_def)
  have "loginAttempts (aggregate ([] @ empty_password_entry # []))
       = loginAttempts (aggregate [])
         @ \<lparr> attempt_ts = ts empty_password_entry, attempt_date = date empty_password_entry,
             attempt_ip = ip empty_password_entry, username = js ''admin'', password = [] \<rparr>
         # loginAttempts (aggregate [])"
    using agg [rule_format, of "[]" "[]"] unfolding e u p .
  moreover have "loginUsername empty_password_entry = Str (js ''admin'')"
    "loginPassword empty_password_entry = Str []"
    by (simp_all add: empty_password_entry_def)
  ultimately show ?thesis
    using h1 h2 c by simp
qed

section \<open>The file selector\<close>

lemma lex_append_le:
  "length x1 = length y1 \<Longrightarrow>
   (x1 @ x2 \<le> y1 @ y2 \<longleftrightarrow> x1 < y1 \<or> (x1 = y1 \<and> x2 \<le> (y2 :: jsstring)))"
  by (induction x1 y1 rule: list_induct2) auto

lemma digit_val_less: "is_digit c \<Longrightarrow> is_digit d \<Longrightarrow> c < d \<longleftrightarrow> digit_val c < digit_val d"
  by (auto simp: is_digit_def digit_val_def word_less_nat_alt word_le_nat_alt)

lemma digit_val_eq: "is_digit c \<Longrightarrow> is_digit d \<Longrightarrow> c = d \<longleftrightarrow> digit_val c = digit_val d"
  by (auto simp: is_digit_def digit_val_def word_le_nat_alt word_unat_eq_iff)

lemma digit_val_bound: "is_digit c \<Longrightarrow> digit_val c < 10"
  by (auto simp: is_digit_def digit_val_def word_le_nat_alt)

lemma unat_digit_char: "k < 10 \<Longrightarrow> unat (digit_char k) = 48 + k"
  unfolding digit_char_def by (rule of_nat_inverse [OF refl]) simp

lemma digit_val_digit_char: "k < 10 \<Longrightarrow> digit_val (digit_char k) = k"
  by (simp add: digit_val_def unat_digit_char)

lemma is_digit_digit_char: "k < 10 \<Longrightarrow> is_digit (digit_char k)"
  by (simp add: is_digit_def word_le_nat_alt unat_digit_char)

lemma number_of_bound: "list_all is_digit cs \<Longrightarrow> number_of cs < 10 ^ length cs"
proof (induction cs)
  case Nil
  show ?case by simp
next
  case (Cons c cs)
  define K :: nat where "K = 10 ^ length cs"
  have d: "digit_val c \<le> 9" and ih: "number_of cs < K"
    using Cons digit_val_bound [of c] by (auto simp: K_def)
  have "digit_val c * K \<le> 9 * K"
    using d by (rule mult_le_mono1)
  then have "digit_val c * K + number_of cs < 10 * K"
    using ih by linarith
  then show ?case by (simp add: K_def)
qed

lemma shifted_less:
  fixes a b K u v :: nat
  assumes "a < b" and "u < K"
  shows "a * K + u < b * K + v"
proof -
  have "Suc a * K \<le> b * K"
    using assms(1) by (intro mult_le_mono1) simp
  moreover have "Suc a * K = a * K + K"
    by simp
  ultimately show ?thesis
    using assms(2) by linarith
qed

lemma number_of_less:
  "length xs = length ys \<Longrightarrow> list_all is_digit xs \<Longrightarrow> list_all is_digit ys \<Longrightarrow>
   (xs < ys \<longleftrightarrow> number_of xs < number_of ys) \<and> (xs = ys \<longleftrightarrow> number_of xs = number_of ys)"
proof (induction xs ys rule: list_induct2)
  case Nil
  show ?case by simp
next
  case (Cons x xs y ys)
  define K :: nat where "K = 10 ^ length ys"
  have len: "10 ^ length xs = K"
    using Cons.hyps by (simp add: K_def)
  have dx: "is_digit x" and dy: "is_digit y"
    and ax: "list_all is_digit xs" and ay: "list_all is_digit ys"
    using Cons.prems by auto
  have ih: "xs < ys \<longleftrightarrow> number_of xs < number_of ys" "xs = ys \<longleftrightarrow> number_of xs = number_of ys"
    using Cons.IH ax ay by auto
  have bx: "number_of xs < K" and by': "number_of ys < K"
    using number_of_bound [OF ax] number_of_bound [OF ay] len by (auto simp: K_def)
  have nx: "number_of (x # xs) = digit_val x * K + number_of xs"
    and ny: "number_of (y # ys) = digit_val y * K + number_of ys"
    using len by (simp_all add: K_def)
  consider "digit_val x < digit_val y" | "digit_val x = digit_val y" | "digit_val y < digit_val x"
    by linarith
  then show ?case
  proof cases
    case 1
    then have c: "x < y" "x \<noteq> y"
      using digit_val_less [OF dx dy] by auto
    have "number_of (x # xs) < number_of (y # ys)"
      unfolding nx ny using 1 bx by (rule shifted_less)
    then show ?thesis using c by simp
  next
    case 2
    then have c: "x = y"
      using digit_val_eq [OF dx dy] by simp
    have "number_of (x # xs) < number_of (y # ys) \<longleftrightarrow> number_of xs < number_of ys"
      "number_of (x # xs) = number_of (y # ys) \<longleftrightarrow> number_of xs = number_of ys"
      unfolding nx ny using 2 by simp_all
    then show ?thesis using c ih by simp
  next
    case 3
    then have "y < x"
      using digit_val_less [OF dy dx] by auto
    then have c: "\<not> x < y" "x \<noteq> y" by auto
    have "number_of (y # ys) < number_of (x # xs)"
      unfolding nx ny using 3 by' by (rule shifted_less)
    then have "\<not> number_of (x # xs) < number_of (y # ys)"
      "number_of (x # xs) \<noteq> number_of (y # ys)"
      by simp_all
    then show ?thesis using c by simp
  qed
qed

lemma upt_4: "[0..<4] = [0, 1, 2, 3]"
  by code_simp

lemma upt_2: "[0..<2] = [0, 1]"
  by code_simp

lemma pad4: "n < 10000 \<Longrightarrow>
  pad 4 n = [digit_char (n div 1000 mod 10), digit_char (n div 100 mod 10),
             digit_char (n div 10 mod 10), digit_char (n mod 10)]"
  by (simp add: pad_def upt_4)

lemma pad2: "pad 2 n = [digit_char (n div 10 mod 10), digit_char (n mod 10)]"
  by (simp add: pad_def upt_2)

lemma four_digits:
  assumes "(n::nat) < 10000"
  shows "n div 1000 mod 10 * 1000 + n div 100 mod 10 * 100 + n div 10 mod 10 * 10 + n mod 10 = n"
proof -
  have a: "n div 1000 mod 10 = n div 1000"
    using assms by simp
  have e: "n div 1000 = n div 100 div 10" "n div 100 = n div 10 div 10"
    by (simp_all flip: div_mult2_eq)
  have b: "n div 100 mod 10 * 100 + n div 1000 * 1000 = n div 100 * 100"
    unfolding e(1) using div_mult_mod_eq [of "n div 100" 10] by linarith
  have c: "n div 10 mod 10 * 10 + n div 100 * 100 = n div 10 * 10"
    unfolding e(2) using div_mult_mod_eq [of "n div 10" 10] by linarith
  have d: "n mod 10 + n div 10 * 10 = n"
    by simp
  show ?thesis
    using a b c d by linarith
qed

lemma two_digits: "(n::nat) < 100 \<Longrightarrow> n div 10 mod 10 * 10 + n mod 10 = n"
  by simp

lemma number_of_4:
  "a < 10 \<Longrightarrow> b < 10 \<Longrightarrow> c < 10 \<Longrightarrow> d < 10 \<Longrightarrow>
   number_of [digit_char a, digit_char b, digit_char c, digit_char d]
     = a * 1000 + b * 100 + c * 10 + d"
  by (simp add: digit_val_digit_char)

lemma number_of_2:
  "a < 10 \<Longrightarrow> b < 10 \<Longrightarrow> number_of [digit_char a, digit_char b] = a * 10 + b"
  by (simp add: digit_val_digit_char)

lemma pad4_props:
  assumes "n < 10000"
  shows "length (pad 4 n) = 4" "list_all is_digit (pad 4 n)" "number_of (pad 4 n) = n"
proof -
  show "length (pad 4 n) = 4" by (simp add: pad_def)
  show "list_all is_digit (pad 4 n)"
    unfolding pad4 [OF assms] by (simp add: is_digit_digit_char)
  show "number_of (pad 4 n) = n"
    unfolding pad4 [OF assms] using four_digits [OF assms] assms
    by (subst number_of_4) simp_all
qed

lemma pad2_props:
  assumes "n < 100"
  shows "length (pad 2 n) = 2" "list_all is_digit (pad 2 n)" "number_of (pad 2 n) = n"
proof -
  show "length (pad 2 n) = 2" by (simp add: pad_def)
  show "list_all is_digit (pad 2 n)"
    unfolding pad2 by (simp add: is_digit_digit_char)
  show "number_of (pad 2 n) = n"
    unfolding pad2 using two_digits [OF assms]
    by (subst number_of_2) simp_all
qed

lemma length_4E:
  assumes "length y = 4"
  obtains a b c d where "y = [a, b, c, d]"
  using assms by (auto simp: length_Suc_conv numeral_eq_Suc)

lemma length_2E:
  assumes "length y = 2"
  obtains a b where "y = [a, b]"
  using assms by (auto simp: length_Suc_conv numeral_eq_Suc)

lemma js_consts: "js ''-'' = [0x2D]" "js ''_'' = [0x5F]" "js ''.log'' = [0x2E, 0x6C, 0x6F, 0x67]"
  by (simp_all add: js_def)

lemma dot_log_no_terminator: "\<not> list_ex is_line_terminator (js ''.log'')"
  by (simp add: js_consts is_line_terminator_def)

lemma log_shape_imp_log_name:
  assumes "log_shape n"
  shows "log_name n"
proof -
  obtain y m d rest where n: "n = y @ js ''-'' @ m @ js ''-'' @ d @ js ''_'' @ rest @ js ''.log''"
    and l: "length y = 4" "length m = 2" "length d = 2"
    and dg: "list_all is_digit y" "list_all is_digit m" "list_all is_digit d"
    and nt: "\<not> list_ex is_line_terminator rest"
    using assms unfolding log_shape_def by blast
  obtain y1 y2 y3 y4 where y: "y = [y1, y2, y3, y4]" using l(1) by (rule length_4E)
  obtain m1 m2 where m: "m = [m1, m2]" using l(2) by (rule length_2E)
  obtain d1 d2 where d: "d = [d1, d2]" using l(3) by (rule length_2E)
  have n': "n = [y1, y2, y3, y4, 0x2D, m1, m2, 0x2D, d1, d2, 0x5F] @ rest @ [0x2E, 0x6C, 0x6F, 0x67]"
    unfolding n y m d js_consts by simp
  have t10: "take 10 n = [y1, y2, y3, y4, 0x2D, m1, m2, 0x2D, d1, d2]"
    and d10: "drop 10 n = 0x5F # rest @ [0x2E, 0x6C, 0x6F, 0x67]"
    and d11: "drop 11 n = rest @ [0x2E, 0x6C, 0x6F, 0x67]"
    unfolding n' by simp_all
  have "date10 (take 10 n)"
    unfolding t10 using dg y m d by simp
  moreover have "starts_with (drop 10 n) (js ''_'')"
    unfolding d10 js_consts by (simp add: starts_with_def)
  moreover have "4 \<le> length (drop 11 n)"
    "drop (length (drop 11 n) - 4) (drop 11 n) = js ''.log''"
    "\<not> list_ex is_line_terminator (take (length (drop 11 n) - 4) (drop 11 n))"
    unfolding d11 js_consts using nt by simp_all
  ultimately show ?thesis
    unfolding log_name_def Let_def by blast
qed

lemma date10D:
  assumes "date10 s"
  obtains y m d where "s = y @ js ''-'' @ m @ js ''-'' @ d"
    "length y = 4" "length m = 2" "length d = 2"
    "list_all is_digit y" "list_all is_digit m" "list_all is_digit d"
proof -
  from assms obtain y1 y2 y3 y4 h1 m1 m2 h2 d1 d2 where
    s: "s = [y1, y2, y3, y4, h1, m1, m2, h2, d1, d2]"
    and p: "is_digit y1 \<and> is_digit y2 \<and> is_digit y3 \<and> is_digit y4 \<and> h1 = 0x2D \<and>
      is_digit m1 \<and> is_digit m2 \<and> h2 = 0x2D \<and> is_digit d1 \<and> is_digit d2"
    by (rule date10.elims(2)) blast
  have "s = [y1, y2, y3, y4] @ js ''-'' @ [m1, m2] @ js ''-'' @ [d1, d2]"
    unfolding s js_consts using p by simp
  then show ?thesis
    using p by (intro that [of "[y1, y2, y3, y4]" "[m1, m2]" "[d1, d2]"]) simp_all
qed

lemma log_name_imp_log_shape:
  assumes "log_name n"
  shows "log_shape n"
proof -
  let ?r = "drop 11 n"
  have a: "date10 (take 10 n)" and b: "starts_with (drop 10 n) (js ''_'')"
    and c: "4 \<le> length ?r" "drop (length ?r - 4) ?r = js ''.log''"
      "\<not> list_ex is_line_terminator (take (length ?r - 4) ?r)"
    using assms unfolding log_name_def Let_def by blast+
  obtain y m d where t: "take 10 n = y @ js ''-'' @ m @ js ''-'' @ d"
    and l: "length y = 4" "length m = 2" "length d = 2"
    and dg: "list_all is_digit y" "list_all is_digit m" "list_all is_digit d"
    using a by (rule date10D)
  have "take 1 (drop 10 n) = js ''_''"
    using b by (simp add: starts_with_def js_consts)
  then have u: "drop 10 n = js ''_'' @ ?r"
    by (metis append_take_drop_id drop_drop numeral_plus_one semiring_norm(5) semiring_norm(8) add.commute)
  have r: "?r = take (length ?r - 4) ?r @ js ''.log''"
    using c(2) by (metis append_take_drop_id)
  have "n = take 10 n @ drop 10 n"
    by simp
  then have "n = y @ js ''-'' @ m @ js ''-'' @ d @ js ''_'' @ take (length ?r - 4) ?r @ js ''.log''"
    unfolding t u using r by simp
  then show ?thesis
    unfolding log_shape_def using l dg c(3) by blast
qed

text \<open>
  The regular expression for the names of log files, and the form
  \<open>YYYY-MM-DD_<run without line terminator>.log\<close>, agree.
\<close>

lemma log_name_iff: "log_name n \<longleftrightarrow> log_shape n"
  using log_name_imp_log_shape log_shape_imp_log_name by blast

lemma date_string_le:
  assumes "length y = length y'" "length m = length m'" "length d = length d'"
    and "list_all is_digit y" "list_all is_digit m" "list_all is_digit d"
    and "list_all is_digit y'" "list_all is_digit m'" "list_all is_digit d'"
  shows "y @ js ''-'' @ m @ js ''-'' @ d \<le> y' @ js ''-'' @ m' @ js ''-'' @ d'
         \<longleftrightarrow> ymd_le (number_of y, number_of m, number_of d)
                    (number_of y', number_of m', number_of d')"
proof -
  have ny: "y < y' \<longleftrightarrow> number_of y < number_of y'" "y = y' \<longleftrightarrow> number_of y = number_of y'"
    using number_of_less [OF assms(1,4,7)] by auto
  have nm: "m < m' \<longleftrightarrow> number_of m < number_of m'" "m = m' \<longleftrightarrow> number_of m = number_of m'"
    using number_of_less [OF assms(2,5,8)] by auto
  have nd: "d < d' \<longleftrightarrow> number_of d < number_of d'" "d = d' \<longleftrightarrow> number_of d = number_of d'"
    using number_of_less [OF assms(3,6,9)] by auto
  have 1: "y @ js ''-'' @ m @ js ''-'' @ d \<le> y' @ js ''-'' @ m' @ js ''-'' @ d'
      \<longleftrightarrow> y < y' \<or> (y = y' \<and> js ''-'' @ m @ js ''-'' @ d \<le> js ''-'' @ m' @ js ''-'' @ d')"
    using assms(1) by (rule lex_append_le)
  have 2: "js ''-'' @ m @ js ''-'' @ d \<le> js ''-'' @ m' @ js ''-'' @ d'
      \<longleftrightarrow> m @ js ''-'' @ d \<le> m' @ js ''-'' @ d'"
    by (simp add: js_consts)
  have 3: "m @ js ''-'' @ d \<le> m' @ js ''-'' @ d'
      \<longleftrightarrow> m < m' \<or> (m = m' \<and> js ''-'' @ d \<le> js ''-'' @ d')"
    using assms(2) by (rule lex_append_le)
  have 4: "js ''-'' @ d \<le> js ''-'' @ d' \<longleftrightarrow> d \<le> d'"
    by (simp add: js_consts)
  have 5: "d \<le> d' \<longleftrightarrow> d < d' \<or> d = d'"
    by (rule le_less)
  have 6: "number_of d \<le> number_of d' \<longleftrightarrow> number_of d < number_of d' \<or> number_of d = number_of d'"
    by (rule le_less)
  show ?thesis
    unfolding 1 2 3 4 5 ymd_le_def prod.case 6 ny nm nd ..
qed

lemma iso_date_UTC:
  assumes "y \<le> 9999"
  shows "iso_date (UTC (int y) m d) = Inr (iso10 (y, m, d))"
proof -
  have "length (pad 4 y @ js ''-'' @ pad 2 m @ js ''-'' @ pad 2 d) = 10"
    by (simp add: pad_def js_consts)
  then have "take 10 (pad 4 y @ js ''-'' @ pad 2 m @ js ''-'' @ pad 2 d)
             = pad 4 y @ js ''-'' @ pad 2 m @ js ''-'' @ pad 2 d"
    by simp
  then show ?thesis
    using assms by (simp add: iso_date_def iso10_def)
qed

text \<open>
  Comparing the first ten characters of a log file name with the ISO date of a
  \<open>Date\<close> as strings is comparing the two dates as numbers.
\<close>

lemma window_test:
  assumes "log_shape n" and "y \<le> 9999" and "m \<le> 12" and "d \<le> 31"
  shows "iso10 (y, m, d) \<le> take 10 n \<longleftrightarrow> ymd_le (y, m, d) (name_date n)"
    and "take 10 n \<le> iso10 (y, m, d) \<longleftrightarrow> ymd_le (name_date n) (y, m, d)"
proof -
  obtain ny nm nd rest where n: "n = ny @ js ''-'' @ nm @ js ''-'' @ nd @ js ''_'' @ rest @ js ''.log''"
    and l: "length ny = 4" "length nm = 2" "length nd = 2"
    and dg: "list_all is_digit ny" "list_all is_digit nm" "list_all is_digit nd"
    using assms(1) unfolding log_shape_def by blast
  have t: "take 10 n = ny @ js ''-'' @ nm @ js ''-'' @ nd"
    unfolding n using l by (simp add: js_consts)
  have nd': "name_date n = (number_of ny, number_of nm, number_of nd)"
    unfolding n name_date_def using l by (simp add: js_consts)
  have b: "y < 10000" "m < 100" "d < 100"
    using assms(2,3,4) by simp_all
  note py = pad4_props [OF b(1)] and pm = pad2_props [OF b(2)] and pd = pad2_props [OF b(3)]
  have "iso10 (y, m, d) \<le> take 10 n
        \<longleftrightarrow> ymd_le (number_of (pad 4 y), number_of (pad 2 m), number_of (pad 2 d))
                   (number_of ny, number_of nm, number_of nd)"
    unfolding iso10_def prod.case t
    using l dg py pm pd by (intro date_string_le) simp_all
  then show "iso10 (y, m, d) \<le> take 10 n \<longleftrightarrow> ymd_le (y, m, d) (name_date n)"
    unfolding nd' py(3) pm(3) pd(3) .
  have "take 10 n \<le> iso10 (y, m, d)
        \<longleftrightarrow> ymd_le (number_of ny, number_of nm, number_of nd)
                   (number_of (pad 4 y), number_of (pad 2 m), number_of (pad 2 d))"
    unfolding iso10_def prod.case t
    using l dg py pm pd by (intro date_string_le) simp_all
  then show "take 10 n \<le> iso10 (y, m, d) \<longleftrightarrow> ymd_le (name_date n) (y, m, d)"
    unfolding nd' py(3) pm(3) pd(3) .
qed

lemma listLogFiles_ok:
  assumes "list_response st folder = Response True status (Items data)"
  shows "listLogFiles st folder
           = Inr (sort (filter log_name (map fname (filter (\<lambda>f. ftype f = js ''file'') data))))"
proof -
  have "filter (\<lambda>f. ftype f = js ''file'' \<and> log_name (fname f)) data
        = filter (log_name \<circ> fname) (filter (\<lambda>f. ftype f = js ''file'') data)"
    by (simp add: conj_commute)
  then show ?thesis
    using assms by (simp add: listLogFiles_def filter_map)
qed

lemma select_files_window:
  assumes "list_response st folder = Response True status (Items data)"
    and "ys \<le> 9999" "ms \<le> 12" "ds \<le> 31"
    and "ye \<le> 9999" "me \<le> 12" "de \<le> 31"
  shows "select_files st folder (UTC (int ys) ms ds, UTC (int ye) me de)
           = Inr (sort (filter
                (\<lambda>n. log_shape n \<and> ymd_le (ys, ms, ds) (name_date n)
                       \<and> ymd_le (name_date n) (ye, me, de))
                (map fname (filter (\<lambda>f. ftype f = js ''file'') data))))"
proof -
  let ?names = "map fname (filter (\<lambda>f. ftype f = js ''file'') data)"
  let ?S = "iso10 (ys, ms, ds)" and ?E = "iso10 (ye, me, de)"
  let ?W = "\<lambda>f. ?S \<le> take 10 f \<and> take 10 f \<le> ?E"
  let ?D = "\<lambda>n. log_shape n \<and> ymd_le (ys, ms, ds) (name_date n)
                       \<and> ymd_le (name_date n) (ye, me, de)"
  have fl: "filterFilesByDate files (UTC (int ys) ms ds, UTC (int ye) me de)
              = Inr (filter ?W files)" for files
    unfolding filterFilesByDate_def fst_conv snd_conv
      iso_date_UTC [OF assms(2)] iso_date_UTC [OF assms(5)] Let_def
    by simp
  have 1: "select_files st folder (UTC (int ys) ms ds, UTC (int ye) me de)
          = Inr (filter ?W (sort (filter log_name ?names)))"
    unfolding select_files_def listLogFiles_ok [OF assms(1)] fl by simp
  have 2: "filter ?W (sort (filter log_name ?names)) = sort (filter ?W (filter log_name ?names))"
    by (rule filter_sort)
  have 3: "filter ?W (filter log_name ?names) = filter (\<lambda>n. log_name n \<and> ?W n) ?names"
    by (rule filter_filter)
  have 4: "filter (\<lambda>n. log_name n \<and> ?W n) ?names = filter ?D ?names"
  proof (rule filter_cong [OF refl])
    fix n
    show "(log_name n \<and> ?W n) \<longleftrightarrow> ?D n"
    proof (cases "log_shape n")
      case True
      show ?thesis
        unfolding log_name_iff
          window_test(1) [OF True assms(2,3,4)] window_test(2) [OF True assms(5,6,7)] ..
    next
      case False
      then show ?thesis
        unfolding log_name_iff by blast
    qed
  qed
  show ?thesis
    unfolding 1 2 3 4 ..
qed

text \<open>
  Claim C6 fails on two names of a listing that are of the form
  \<open>YYYY-MM-DD_<anything>.log\<close> and dated inside the window: the name of an entry
  whose type is \<open>dir\<close>, which \<open>f.type === "file"\<close> drops, and a name with the
  line separator U+2028 in it, which the dot of the regular expression does not
  match. Neither is selected.
\<close>

theorem listed_names_of_the_pattern_not_selected:
  "list_response listed_store (js ''fortipot'') = Response True 200 (Items listed_items)
   \<and> \<lparr> ftype = js ''dir'', fname = js ''2026-02-18'' @ js ''_'' @ js ''dir'' @ js ''.log'' \<rparr>
       \<in> set listed_items
   \<and> \<lparr> ftype = js ''file'',
        fname = js ''2026-02-18'' @ js ''_'' @ (js ''a'' @ [0x2028] @ js ''b'') @ js ''.log'' \<rparr>
       \<in> set listed_items
   \<and> select_files listed_store (js ''fortipot'') (UTC 2026 1 1, UTC 2026 11 3)
       = Inr [js ''2026-02-17_fortipot.log'', js ''2026-02-18_fortipot.log'']"
proof -
  have "select_files listed_store (js ''fortipot'') (UTC 2026 1 1, UTC 2026 11 3)
       = Inr [js ''2026-02-17_fortipot.log'', js ''2026-02-18_fortipot.log'']"
    by (simp add: select_files_def listLogFiles_def listed_store_def listed_items_def
          filterFilesByDate_def iso_date_def pad4 pad2 log_name_def starts_with_def js_def
          is_digit_def is_line_terminator_def digit_char_def Let_def)
  then show ?thesis
    by (simp add: listed_store_def listed_items_def)
qed

text \<open>
  Claim C6, amended. For a listing that arrives and a window whose two dates have
  years up to 9999, the selection is the sorted list of the names of the entries of
  type \<open>file\<close> that are of the form
  \<open>YYYY-MM-DD_<run without line terminator>.log\<close> and whose date, read as
  numbers, lies between the UTC dates of the window's start and end; it is the same
  under the window of all time, whose start is 1 January 2000, or 31 December 1999
  where the local zone is ahead of UTC. The name \<open>not-a-date.log\<close> is not of the
  form, so that no window selects it.
\<close>

theorem selected_files_in_window:
  assumes "list_response st folder = Response True status (Items data)"
    and "ys \<le> 9999" "ms \<le> 12" "ds \<le> 31"
    and "ye \<le> 9999" "me \<le> 12" "de \<le> 31"
  shows "select_files st folder (UTC (int ys) ms ds, UTC (int ye) me de)
           = Inr (sort (filter
                (\<lambda>n. log_shape n \<and> ymd_le (ys, ms, ds) (name_date n)
                       \<and> ymd_le (name_date n) (ye, me, de))
                (map fname (filter (\<lambda>f. ftype f = js ''file'') data))))
         \<and> (\<exists>r. select_files st folder (UTC (int ys) ms ds, UTC (int ye) me de) = Inr r
                 \<and> sorted r)
         \<and> select_files st folder (getDateRange_all zone_ahead (UTC (int ye) me de))
           = Inr (sort (filter
                (\<lambda>n. log_shape n
                       \<and> ymd_le (if zone_ahead then (1999, 12, 31) else (2000, 1, 1)) (name_date n)
                       \<and> ymd_le (name_date n) (ye, me, de))
                (map fname (filter (\<lambda>f. ftype f = js ''file'') data))))
         \<and> \<not> log_shape (js ''not-a-date.log'')"
proof -
  let ?names = "map fname (filter (\<lambda>f. ftype f = js ''file'') data)"
  let ?D = "\<lambda>s n. log_shape n \<and> ymd_le s (name_date n) \<and> ymd_le (name_date n) (ye, me, de)"
  have eq: "select_files st folder (UTC (int ys) ms ds, UTC (int ye) me de)
           = Inr (sort (filter (?D (ys, ms, ds)) ?names))"
    using assms by (rule select_files_window)
  have a1: "select_files st folder (UTC (int 1999) 12 31, UTC (int ye) me de)
           = Inr (sort (filter (?D (1999, 12, 31)) ?names))"
    using assms(1) _ _ _ assms(5,6,7) by (rule select_files_window) simp_all
  have a2: "select_files st folder (UTC (int 2000) 1 1, UTC (int ye) me de)
           = Inr (sort (filter (?D (2000, 1, 1)) ?names))"
    using assms(1) _ _ _ assms(5,6,7) by (rule select_files_window) simp_all
  have al: "select_files st folder (getDateRange_all zone_ahead (UTC (int ye) me de))
           = Inr (sort (filter (?D (if zone_ahead then (1999, 12, 31) else (2000, 1, 1))) ?names))"
  proof (cases zone_ahead)
    case True
    then show ?thesis using a1 by (simp add: getDateRange_all_def)
  next
    case False
    then show ?thesis using a2 by (simp add: getDateRange_all_def)
  qed
  have "\<not> log_name (js ''not-a-date.log'')"
    by code_simp
  then have nd: "\<not> log_shape (js ''not-a-date.log'')"
    unfolding log_name_iff .
  have "sorted (sort (filter (?D (ys, ms, ds)) ?names))"
    by (rule sorted_sort)
  then show ?thesis
    using eq al nd by blast
qed

theorem selected_files_in_window_witness:
  "list_response listed_store (js ''fortipot'') = Response True 200 (Items listed_items)
   \<and> (2026::nat) \<le> 9999 \<and> (1::nat) \<le> 12 \<and> (1::nat) \<le> 31
   \<and> (11::nat) \<le> 12 \<and> (3::nat) \<le> 31
   \<and> select_files listed_store (js ''fortipot'') (UTC (int 2026) 1 1, UTC (int 2026) 11 3)
       = Inr (sort (filter
                (\<lambda>n. log_shape n \<and> ymd_le (2026, 1, 1) (name_date n)
                       \<and> ymd_le (name_date n) (2026, 11, 3))
                (map fname (filter (\<lambda>f. ftype f = js ''file'') listed_items))))
   \<and> select_files listed_store (js ''fortipot'') (UTC (int 2026) 1 1, UTC (int 2026) 11 3)
       = Inr [js ''2026-02-17_fortipot.log'', js ''2026-02-18_fortipot.log'']
   \<and> select_files listed_store (js ''fortipot'') (getDateRange_all False (UTC (int 2026) 11 3))
       = Inr [js ''2025-01-01_old.log'', js ''2026-02-17_fortipot.log'',
              js ''2026-02-18_fortipot.log'']"
proof -
  have h1: "list_response listed_store (js ''fortipot'') = Response True 200 (Items listed_items)"
    by (simp add: listed_store_def)
  have e1: "select_files listed_store (js ''fortipot'') (UTC (int 2026) 1 1, UTC (int 2026) 11 3)
       = Inr [js ''2026-02-17_fortipot.log'', js ''2026-02-18_fortipot.log'']"
    by (simp add: select_files_def listLogFiles_def listed_store_def listed_items_def
          filterFilesByDate_def iso_date_def pad4 pad2 log_name_def starts_with_def js_def
          is_digit_def is_line_terminator_def digit_char_def Let_def getDateRange_all_def)
  have e2: "select_files listed_store (js ''fortipot'') (getDateRange_all False (UTC (int 2026) 11 3))
       = Inr [js ''2025-01-01_old.log'', js ''2026-02-17_fortipot.log'',
              js ''2026-02-18_fortipot.log'']"
    by (simp add: select_files_def listLogFiles_def listed_store_def listed_items_def
          filterFilesByDate_def iso_date_def pad4 pad2 log_name_def starts_with_def js_def
          is_digit_def is_line_terminator_def digit_char_def Let_def getDateRange_all_def)
  have t: "select_files listed_store (js ''fortipot'') (UTC (int 2026) 1 1, UTC (int 2026) 11 3)
       = Inr (sort (filter
                (\<lambda>n. log_shape n \<and> ymd_le (2026, 1, 1) (name_date n)
                       \<and> ymd_le (name_date n) (2026, 11, 3))
                (map fname (filter (\<lambda>f. ftype f = js ''file'') listed_items))))"
    using selected_files_in_window [OF h1, of 2026 1 1 2026 11 3] by simp
  show ?thesis
    using h1 e1 e2 t by simp
qed

section \<open>The fetcher and the parser table\<close>

lemma split_lines_not_Nil: "split_lines s \<noteq> []"
  by (induction s rule: split_lines.induct) (auto split: list.splits)

lemma parseLogLines_empty: "parseLogLines [] tag = Inr []"
  by (simp add: parseLogLines_def trim_def Let_def)

lemma fetch_all_skip:
  assumes "fetchLogContent st folder filename = Inr []"
  shows "fetch_all st folder (fs1 @ filename # fs2) = fetch_all st folder (fs1 @ fs2)"
proof (induction fs1)
  case Nil
  show ?case
    using assms by (simp add: parseLogLines_empty split: sum.splits)
next
  case (Cons f fs1)
  show ?case
    by (simp add: Cons.IH cong: sum.case_cong)
qed

text \<open>
  When a response arrives: a listing response that is not \<open>ok\<close> makes
  \<open>listLogFiles\<close> raise an \<open>Error\<close> whose message ends with the status, and
  \<open>loadAndParseLogs\<close> ends with that error. A content response that is not \<open>ok\<close>,
  or whose body cannot be read, makes \<open>fetchLogContent\<close> return the empty string:
  the loop over the files goes on as if that file were not in the list.
\<close>

lemma failure_responses:
  "(list_response st folder = Response False status body \<longrightarrow>
      listLogFiles st folder
        = Inl (Error (js ''Failed to list '' @ folder @ js '': '' @ decimal status))
      \<and> loadAndParseLogs st folder dateRange
        = Inl (Error (js ''Failed to list '' @ folder @ js '': '' @ decimal status)))
   \<and> (well_formed filename
       \<and> (content_response st folder filename = Response False status' body'
            \<or> content_response st folder filename = Response True status' None) \<longrightarrow>
      fetchLogContent st folder filename = Inr []
      \<and> fetch_all st folder (fs1 @ filename # fs2) = fetch_all st folder (fs1 @ fs2))"
proof -
  have a: "listLogFiles st folder
        = Inl (Error (js ''Failed to list '' @ folder @ js '': '' @ decimal status))"
    if "list_response st folder = Response False status body"
    using that by (simp add: listLogFiles_def)
  have b: "fetchLogContent st folder filename = Inr []"
    if "well_formed filename"
      and "content_response st folder filename = Response False status' body'
            \<or> content_response st folder filename = Response True status' None"
    using that by (auto simp: fetchLogContent_def)
  show ?thesis
    using a b fetch_all_skip [of st folder filename fs1 fs2]
    by (auto simp: loadAndParseLogs_def)
qed

text \<open>
  Claim C7, at a store that lists two log files in the window, rejects the fetch of
  the first (no response: the network fails) and answers the fetch of the second
  with one log line. \<open>await fetch\<close> stands outside the \<open>try\<close> of
  \<open>fetchLogContent\<close>, and \<open>loadAndParseLogs\<close> catches nothing: the rejection ends
  the run with its TypeError, and the entry of the second file, which the loop alone
  would give, is lost.
\<close>

theorem rejected_content_fetch_ends_the_run:
  "content_response rejecting_store (js ''fortipot'') (js ''2026-02-17_fortipot.log'') = Rejected
   \<and> fetchLogContent rejecting_store (js ''fortipot'') (js ''2026-02-17_fortipot.log'')
       = Inl TypeError
   \<and> fetch_all rejecting_store (js ''fortipot'') [js ''2026-02-18_fortipot.log'']
       = Inr [Parsed get_entry]
   \<and> select_files rejecting_store (js ''fortipot'') (UTC 2026 1 1, UTC 2026 11 3)
       = Inr [js ''2026-02-17_fortipot.log'', js ''2026-02-18_fortipot.log'']
   \<and> loadAndParseLogs rejecting_store (js ''fortipot'') (UTC 2026 1 1, UTC 2026 11 3)
       = Inl TypeError"
proof -
  have w: "well_formed (js ''2026-02-17_fortipot.log'')"
    by code_simp
  have a: "content_response rejecting_store (js ''fortipot'') (js ''2026-02-17_fortipot.log'')
             = Rejected"
    by (simp add: rejecting_store_def)
  have b: "fetchLogContent rejecting_store (js ''fortipot'') (js ''2026-02-17_fortipot.log'')
             = Inl TypeError"
    using w a by (simp add: fetchLogContent_def)
  have c: "fetch_all rejecting_store (js ''fortipot'') [js ''2026-02-18_fortipot.log'']
             = Inr [Parsed get_entry]"
    by code_simp
  have d: "select_files rejecting_store (js ''fortipot'') (UTC 2026 1 1, UTC 2026 11 3)
       = Inr [js ''2026-02-17_fortipot.log'', js ''2026-02-18_fortipot.log'']"
    by (simp add: select_files_def listLogFiles_def rejecting_store_def
          filterFilesByDate_def iso_date_def pad4 pad2 log_name_def starts_with_def js_def
          is_digit_def is_line_terminator_def digit_char_def Let_def)
  have e: "loadAndParseLogs rejecting_store (js ''fortipot'') (UTC 2026 1 1, UTC 2026 11 3)
       = (case select_files rejecting_store (js ''fortipot'') (UTC 2026 1 1, UTC 2026 11 3) of
            Inl e \<Rightarrow> Inl e
          | Inr filtered \<Rightarrow>
              (case fetch_all rejecting_store (js ''fortipot'') filtered of
                 Inl e \<Rightarrow> Inl e
               | Inr allEntries \<Rightarrow> Inr (aggregate (map as_entry allEntries))))"
    by (simp add: loadAndParseLogs_def select_files_def split: sum.splits)
  have "loadAndParseLogs rejecting_store (js ''fortipot'') (UTC 2026 1 1, UTC 2026 11 3)
       = Inl TypeError"
    unfolding e d using b by simp
  then show ?thesis
    using a b c d by blast
qed




section \<open>The address prefix and the order of classification\<close>

lemma space_range: "is_space c \<Longrightarrow> unat c \<le> 32 \<or> 160 \<le> unat c"
  unfolding is_space_def by (auto simp: word_le_nat_alt)

lemma digit_range: "is_digit c \<Longrightarrow> 48 \<le> unat c \<and> unat c \<le> 57"
  unfolding is_digit_def by (simp add: word_le_nat_alt)

lemma ip_char_range: "is_ip_char c \<Longrightarrow> 46 \<le> unat c \<and> unat c \<le> 57"
  unfolding is_ip_char_def using digit_range [of c] by auto

lemma space_not_digit: "is_space c \<Longrightarrow> \<not> is_digit c"
  using space_range [of c] digit_range [of c] by auto

lemma space_not_ip_char: "is_space c \<Longrightarrow> \<not> is_ip_char c"
  using space_range [of c] ip_char_range [of c] by auto

lemma space_not_quote: "is_space c \<Longrightarrow> c \<noteq> 0x27 \<and> c \<noteq> 0x22"
  using space_range [of c] by auto

lemma ip_char_not_quote: "is_ip_char c \<Longrightarrow> c \<noteq> 0x27 \<and> c \<noteq> 0x22"
  using ip_char_range [of c] by auto

lemma punct_classes:
  "\<not> is_space 0x28" "\<not> is_space 0x2C" "\<not> is_space 0x27" "\<not> is_space 0x22"
  "\<not> is_ip_char 0x27" "\<not> is_ip_char 0x22" "\<not> is_ip_char 0x2C"
  "\<not> is_digit 0x29"
  by (simp_all add: is_space_def is_ip_char_def is_digit_def)

lemma dropWhile_run:
  "list_all P w \<Longrightarrow> s = [] \<or> \<not> P (hd s) \<Longrightarrow> dropWhile P (w @ s) = s"
  by (induction w) (auto simp: neq_Nil_conv dropWhile_eq_self_iff)

lemma takeWhile_run:
  "list_all P w \<Longrightarrow> s = [] \<or> \<not> P (hd s) \<Longrightarrow> takeWhile P (w @ s) = w"
  by (induction w) (auto simp: neq_Nil_conv takeWhile_eq_Nil_iff)

lemma trim_dropWhile: "trim (dropWhile is_space s) = trim s"
  by (simp add: trim_def)

lemma opt_quote_skip:
  "quote_opt q \<Longrightarrow> s \<noteq> [] \<Longrightarrow> hd s \<noteq> 0x27 \<and> hd s \<noteq> 0x22 \<Longrightarrow> opt_quote (q @ s) = s"
  by (cases s) (auto simp: quote_opt_def opt_quote_def)

lemma quote_opt_hd:
  assumes "quote_opt q" and "s \<noteq> []"
  shows "q @ s \<noteq> [] \<and> (hd (q @ s) = 0x27 \<or> hd (q @ s) = 0x22 \<or> hd (q @ s) = hd s)"
  using assms by (auto simp: quote_opt_def)

lemma spaces_hd:
  assumes "list_all is_space w"
  shows "is_space (hd (w @ c # s)) \<or> hd (w @ c # s) = c"
  using assms by (cases w) auto

text \<open>
  The scanner of \<open>stripAddrPrefix\<close> accepts a string that begins with a prefix of
  the shape and leaves what follows the prefix, without its leading white space.
  Conversely, a string that it accepts is white space, a prefix of the shape and a
  rest.
\<close>

lemma addr_prefix_rest_shape:
  assumes "addr_shape x"
  shows "addr_prefix_rest (x @ rest) = Some (dropWhile is_space rest)"
proof -
  obtain w1 q1 a q2 w2 w3 port where
    x: "x = js ''('' @ w1 @ q1 @ a @ q2 @ w2 @ js '','' @ w3 @ port @ js '')''"
    and w: "list_all is_space w1" "list_all is_space w2" "list_all is_space w3"
    and q: "quote_opt q1" "quote_opt q2"
    and a: "a \<noteq> []" "list_all is_ip_char a"
    and p: "port \<noteq> []" "list_all is_digit port"
    using assms unfolding addr_shape_def by blast
  define t6 where "t6 = 0x29 # rest"
  define t5 where "t5 = port @ t6"
  define t4 where "t4 = w3 @ t5"
  define t3 where "t3 = w2 @ 0x2C # t4"
  define t2 where "t2 = a @ q2 @ t3"
  define t1 where "t1 = w1 @ q1 @ t2"
  have xs: "x @ rest = 0x28 # t1"
    by (simp add: x t1_def t2_def t3_def t4_def t5_def t6_def js_def)
  have s0: "dropWhile is_space (x @ rest) = 0x28 # t1"
    unfolding xs by (simp add: punct_classes)
  obtain ah at where ah: "a = ah # at" "is_ip_char ah"
    using a by (cases a) auto
  obtain ph pt where ph: "port = ph # pt" "is_digit ph"
    using p by (cases port) auto
  have t2h: "t2 \<noteq> []" "hd t2 = ah"
    by (simp_all add: t2_def ah)
  have t3n: "t3 \<noteq> []"
    by (simp add: t3_def)
  have t3h: "is_space (hd t3) \<or> hd t3 = 0x2C"
    unfolding t3_def using w(2) by (rule spaces_hd)
  have t5h: "t5 \<noteq> []" "hd t5 = ph"
    by (simp_all add: t5_def ph)
  have "q1 @ t2 \<noteq> [] \<and> (hd (q1 @ t2) = 0x27 \<or> hd (q1 @ t2) = 0x22 \<or> hd (q1 @ t2) = hd t2)"
    using q(1) t2h(1) by (rule quote_opt_hd)
  then have "q1 @ t2 = [] \<or> \<not> is_space (hd (q1 @ t2))"
    using t2h(2) ah(2) space_not_ip_char [of ah] punct_classes by auto
  then have s1: "dropWhile is_space t1 = q1 @ t2"
    unfolding t1_def using w(1) by (intro dropWhile_run)
  have s2: "opt_quote (q1 @ t2) = t2"
    using q(1) t2h ah(2) ip_char_not_quote [of ah] by (intro opt_quote_skip) auto
  have "q2 @ t3 \<noteq> [] \<and> (hd (q2 @ t3) = 0x27 \<or> hd (q2 @ t3) = 0x22 \<or> hd (q2 @ t3) = hd t3)"
    using q(2) t3n by (rule quote_opt_hd)
  then have e3: "q2 @ t3 = [] \<or> \<not> is_ip_char (hd (q2 @ t3))"
    using t3h space_not_ip_char [of "hd t3"] punct_classes by auto
  have s3: "takeWhile is_ip_char t2 = a" "dropWhile is_ip_char t2 = q2 @ t3"
    unfolding t2_def using a(2) e3 by (auto intro: takeWhile_run dropWhile_run)
  have s4: "opt_quote (q2 @ t3) = t3"
    using q(2) t3n t3h space_not_quote [of "hd t3"] by (intro opt_quote_skip) auto
  have s5: "dropWhile is_space t3 = 0x2C # t4"
    unfolding t3_def using w(2) by (intro dropWhile_run) (simp_all add: punct_classes)
  have "t5 = [] \<or> \<not> is_space (hd t5)"
    using t5h ph(2) space_not_digit [of ph] by auto
  then have s6: "dropWhile is_space t4 = t5"
    unfolding t4_def using w(3) by (intro dropWhile_run)
  have s7: "takeWhile is_digit t5 = port" "dropWhile is_digit t5 = t6"
    unfolding t5_def t6_def using p(2)
    by (auto intro!: takeWhile_run dropWhile_run simp: punct_classes)
  show ?thesis
    unfolding addr_prefix_rest_def s0
    by (simp add: s1 s2 s3 s4 s5 s6 s7 a(1) p(1) Let_def) (simp add: t6_def)
qed

lemma stripAddrPrefix_shape:
  assumes "addr_shape x"
  shows "stripAddrPrefix (x @ rest) = trim rest"
proof -
  have "x \<noteq> []"
    using assms unfolding addr_shape_def by (auto simp: js_def)
  then show ?thesis
    by (simp add: stripAddrPrefix_def addr_prefix_rest_shape [OF assms] trim_dropWhile)
qed

lemma dropWhile_hd: "dropWhile P s = [] \<or> \<not> P (hd (dropWhile P s))"
  using hd_dropWhile [of P s] by blast

lemma rev_dropWhile_rev_prefix: "prefix (rev (dropWhile P (rev y))) y"
proof -
  have "rev (rev y) = rev (takeWhile P (rev y) @ dropWhile P (rev y))"
    by simp
  then have "y = rev (dropWhile P (rev y)) @ rev (takeWhile P (rev y))"
    by (simp del: takeWhile_dropWhile_id)
  then show ?thesis
    unfolding prefix_def by blast
qed

lemma trim_hd: "trim z \<noteq> [] \<Longrightarrow> \<not> is_space (hd (trim z))"
proof -
  assume n: "trim z \<noteq> []"
  let ?y = "dropWhile is_space z"
  have p: "prefix (trim z) ?y"
    unfolding trim_def by (rule rev_dropWhile_rev_prefix)
  have yn: "?y \<noteq> []"
  proof
    assume e: "?y = []"
    have "prefix (trim z) []"
      using p unfolding e .
    then show False using n by simp
  qed
  have "\<not> is_space (hd ?y)"
    using dropWhile_hd [of is_space z] yn by blast
  moreover have "hd (trim z) = hd ?y"
    using p n by (auto simp: prefix_def)
  ultimately show ?thesis by simp
qed

lemma dropWhile_trim: "dropWhile is_space (trim z) = trim z"
  using trim_hd [of z] by (cases "trim z") auto

lemma trim_trim: "trim (trim z) = trim z"
proof -
  have "rev (trim z) = dropWhile is_space (rev (dropWhile is_space z))"
    by (simp add: trim_def)
  then have "dropWhile is_space (rev (trim z)) = rev (trim z)"
    by simp
  then show ?thesis
    unfolding trim_def [of "trim z"] dropWhile_trim by simp
qed

lemma opt_quote_decomp: "\<exists>q. quote_opt q \<and> u = q @ opt_quote u"
  by (cases u) (auto simp: opt_quote_def quote_opt_def)

lemma addr_shapeI:
  assumes "list_all is_space w1" and "list_all is_space w2" and "list_all is_space w3"
    and "list_all is_ip_char a" and "list_all is_digit port"
    and "a \<noteq> []" and "port \<noteq> []" and "quote_opt q1" and "quote_opt q2"
  shows "addr_shape (js ''('' @ w1 @ q1 @ a @ q2 @ w2 @ js '','' @ w3 @ port @ js '')'')"
  unfolding addr_shape_def
  apply (rule exI [of _ w1])
  apply (rule exI [of _ q1])
  apply (rule exI [of _ a])
  apply (rule exI [of _ q2])
  apply (rule exI [of _ w2])
  apply (rule exI [of _ w3])
  apply (rule exI [of _ port])
  using assms by simp

lemma addr_prefix_rest_open:
  assumes "addr_prefix_rest s = Some r"
  shows "\<exists>s1. dropWhile is_space s = 0x28 # s1"
proof (cases "dropWhile is_space s")
  case Nil
  have "addr_prefix_rest s = None"
    unfolding addr_prefix_rest_def Nil by simp
  then show ?thesis using assms by simp
next
  case (Cons c s1)
  show ?thesis
  proof (cases "c = 0x28")
    case True
    then show ?thesis using Cons by simp
  next
    case False
    have "addr_prefix_rest s = None"
      unfolding addr_prefix_rest_def Cons using False by simp
    then show ?thesis using assms by simp
  qed
qed

lemma addr_prefix_rest_step1:
  assumes "dropWhile is_space s = 0x28 # s1"
  shows "addr_prefix_rest s =
     (if takeWhile is_ip_char (opt_quote (dropWhile is_space s1)) = [] then None
      else (case dropWhile is_space
                   (opt_quote (dropWhile is_ip_char (opt_quote (dropWhile is_space s1)))) of
              [] \<Rightarrow> None
            | c2 # s4 \<Rightarrow>
                if c2 \<noteq> 0x2C then None
                else if takeWhile is_digit (dropWhile is_space s4) = [] then None
                else (case dropWhile is_digit (dropWhile is_space s4) of
                        [] \<Rightarrow> None
                      | c3 # s7 \<Rightarrow>
                          if c3 = 0x29 then Some (dropWhile is_space s7) else None)))"
  unfolding addr_prefix_rest_def assms Let_def by simp

lemma addr_tail_SomeD:
  assumes "(case v of
              [] \<Rightarrow> None
            | c2 # s4 \<Rightarrow>
                if c2 \<noteq> (0x2C :: jschar) then None
                else if takeWhile is_digit (dropWhile is_space s4) = [] then None
                else (case dropWhile is_digit (dropWhile is_space s4) of
                        [] \<Rightarrow> None
                      | c3 # s7 \<Rightarrow>
                          if c3 = 0x29 then Some (dropWhile is_space s7) else None)) = Some r"
  shows "\<exists>s4 s7. v = 0x2C # s4 \<and> takeWhile is_digit (dropWhile is_space s4) \<noteq> []
           \<and> dropWhile is_digit (dropWhile is_space s4) = 0x29 # s7
           \<and> r = dropWhile is_space s7"
proof (cases v)
  case Nil
  have False using assms unfolding Nil by simp
  then show ?thesis ..
next
  case (Cons c2 s4)
  note v = Cons
  have c2: "c2 = 0x2C"
  proof (rule ccontr)
    assume "c2 \<noteq> 0x2C"
    then show False using assms unfolding v by simp
  qed
  let ?p = "takeWhile is_digit (dropWhile is_space s4)"
  let ?t = "dropWhile is_digit (dropWhile is_space s4)"
  have a1: "(if ?p = [] then None
             else (case ?t of
                     [] \<Rightarrow> None
                   | c3 # s7 \<Rightarrow> if c3 = 0x29 then Some (dropWhile is_space s7) else None))
            = Some r"
    using assms unfolding v c2 list.case by (simp only: simp_thms if_False)
  have pn: "?p \<noteq> []"
  proof
    assume e: "?p = []"
    show False using a1 unfolding e by (simp only: simp_thms if_True option.distinct)
  qed
  have a2: "(case ?t of
               [] \<Rightarrow> None
             | c3 # s7 \<Rightarrow> if c3 = 0x29 then Some (dropWhile is_space s7) else None) = Some r"
    using a1 unfolding if_not_P [OF pn] .
  obtain c3 s7 where t: "?t = c3 # s7"
  proof (cases ?t)
    case Nil
    have False using a2 unfolding Nil by (simp only: list.case option.distinct)
    then show ?thesis ..
  next
    case (Cons c3 s7)
    then show ?thesis by (rule that)
  qed
  have a3: "(if c3 = 0x29 then Some (dropWhile is_space s7) else None) = Some r"
    using a2 unfolding t list.case .
  have c3: "c3 = 0x29"
  proof (rule ccontr)
    assume n: "c3 \<noteq> 0x29"
    show False using a3 unfolding if_not_P [OF n] by (simp only: option.distinct)
  qed
  have r: "r = dropWhile is_space s7"
    using a3 unfolding c3 by simp
  show ?thesis
    apply (rule exI [of _ s4])
    apply (rule exI [of _ s7])
    apply (intro conjI)
       apply (simp only: v c2)
      apply (rule pn)
     apply (simp only: t c3)
    apply (rule r)
    done
qed

lemma list_all_takeWhile: "list_all P (takeWhile P xs)"
  by (induction xs) simp_all

lemma addr_prefix_rest_SomeD:
  assumes "addr_prefix_rest s = Some r"
  shows "\<exists>w0 x rest. s = w0 @ x @ rest \<and> list_all is_space w0 \<and> addr_shape x
           \<and> r = dropWhile is_space rest"
proof -
  obtain s1 where d0: "dropWhile is_space s = 0x28 # s1"
    using addr_prefix_rest_open [OF assms] by (elim exE)
  define w0 where "w0 = takeWhile is_space s"
  define w1 where "w1 = takeWhile is_space s1"
  define u where "u = dropWhile is_space s1"
  define s2 where "s2 = opt_quote u"
  define a where "a = takeWhile is_ip_char s2"
  define s3 where "s3 = dropWhile is_ip_char s2"
  define v where "v = opt_quote s3"
  define w2 where "w2 = takeWhile is_space v"
  have st: "addr_prefix_rest s =
     (if a = [] then None
      else (case dropWhile is_space v of
              [] \<Rightarrow> None
            | c2 # s4 \<Rightarrow>
                if c2 \<noteq> 0x2C then None
                else if takeWhile is_digit (dropWhile is_space s4) = [] then None
                else (case dropWhile is_digit (dropWhile is_space s4) of
                        [] \<Rightarrow> None
                      | c3 # s7 \<Rightarrow>
                          if c3 = 0x29 then Some (dropWhile is_space s7) else None)))"
    unfolding a_def v_def s3_def s2_def u_def by (rule addr_prefix_rest_step1 [OF d0])
  have an: "a \<noteq> []"
  proof
    assume e: "a = []"
    have "addr_prefix_rest s = None"
      unfolding st e by simp
    then show False using assms by simp
  qed
  have "(case dropWhile is_space v of
              [] \<Rightarrow> None
            | c2 # s4 \<Rightarrow>
                if c2 \<noteq> (0x2C :: jschar) then None
                else if takeWhile is_digit (dropWhile is_space s4) = [] then None
                else (case dropWhile is_digit (dropWhile is_space s4) of
                        [] \<Rightarrow> None
                      | c3 # s7 \<Rightarrow>
                          if c3 = 0x29 then Some (dropWhile is_space s7) else None)) = Some r"
    using assms unfolding st if_not_P [OF an] .
  then have "\<exists>s4 s7. dropWhile is_space v = 0x2C # s4
           \<and> takeWhile is_digit (dropWhile is_space s4) \<noteq> []
           \<and> dropWhile is_digit (dropWhile is_space s4) = 0x29 # s7
           \<and> r = dropWhile is_space s7"
    by (rule addr_tail_SomeD)
  then obtain s4 s7 where d1: "dropWhile is_space v = 0x2C # s4"
    and pn': "takeWhile is_digit (dropWhile is_space s4) \<noteq> []"
    and d2': "dropWhile is_digit (dropWhile is_space s4) = 0x29 # s7"
    and r: "r = dropWhile is_space s7"
    by (elim exE conjE)
  define w3 where "w3 = takeWhile is_space s4"
  define s5 where "s5 = dropWhile is_space s4"
  define port where "port = takeWhile is_digit s5"
  have pn: "port \<noteq> []"
    using pn' unfolding port_def s5_def .
  have d2: "dropWhile is_digit s5 = 0x29 # s7"
    using d2' unfolding s5_def .
  obtain q1 where q1: "quote_opt q1" "u = q1 @ s2"
    using opt_quote_decomp [of u] unfolding s2_def by (elim exE conjE)
  obtain q2 where q2: "quote_opt q2" "s3 = q2 @ v"
    using opt_quote_decomp [of s3] unfolding v_def by (elim exE conjE)
  have f5: "s5 = port @ 0x29 # s7"
    unfolding port_def d2 [symmetric] by simp
  have f4: "s4 = w3 @ s5"
    unfolding w3_def s5_def by simp
  have f3: "v = w2 @ 0x2C # s4"
    unfolding w2_def d1 [symmetric] by simp
  have f2: "s2 = a @ s3"
    unfolding a_def s3_def by simp
  have f1: "s1 = w1 @ u"
    unfolding w1_def u_def by simp
  have f0: "s = w0 @ 0x28 # s1"
    unfolding w0_def d0 [symmetric] by simp
  have s: "s = w0 @ (js ''('' @ w1 @ q1 @ a @ q2 @ w2 @ js '','' @ w3 @ port @ js '')'') @ s7"
    apply (subst f0)
    apply (subst f1)
    apply (subst q1(2))
    apply (subst f2)
    apply (subst q2(2))
    apply (subst f3)
    apply (subst f4)
    apply (subst f5)
    apply (simp add: js_def)
    done
  have sp: "list_all is_space w0" "list_all is_space w1" "list_all is_space w2" "list_all is_space w3"
    and ip: "list_all is_ip_char a" and dg: "list_all is_digit port"
    unfolding w0_def w1_def w2_def w3_def a_def port_def
    by (rule list_all_takeWhile)+
  have ap: "addr_shape (js ''('' @ w1 @ q1 @ a @ q2 @ w2 @ js '','' @ w3 @ port @ js '')'')"
    using sp(2,3,4) ip dg an pn q1(1) q2(1) by (rule addr_shapeI)
  show ?thesis
    apply (rule exI [of _ w0])
    apply (rule exI [of _ "js ''('' @ w1 @ q1 @ a @ q2 @ w2 @ js '','' @ w3 @ port @ js '')''"])
    apply (rule exI [of _ s7])
    apply (intro conjI)
       apply (rule s)
      apply (rule sp(1))
     apply (rule ap)
    apply (rule r)
    done
qed

lemma stripAddrPrefix_no_prefix:
  assumes "\<not> (\<exists>x rest. trim z = x @ rest \<and> addr_shape x)"
  shows "stripAddrPrefix (trim z) = trim z"
proof (cases "addr_prefix_rest (trim z)")
  case None
  then show ?thesis
    by (simp add: stripAddrPrefix_def trim_trim)
next
  case (Some r)
  then have "\<exists>w0 x rest. trim z = w0 @ x @ rest \<and> list_all is_space w0 \<and> addr_shape x
           \<and> r = dropWhile is_space rest"
    by (rule addr_prefix_rest_SomeD)
  then obtain w0 x rest where s: "trim z = w0 @ x @ rest" and w: "list_all is_space w0"
    and x: "addr_shape x"
    by (elim exE conjE)
  have "w0 = []"
  proof (rule ccontr)
    assume n: "w0 \<noteq> []"
    then have "trim z \<noteq> []"
      using s by simp
    moreover have "is_space (hd (trim z))"
      using s w n by (cases w0) simp_all
    ultimately show False using trim_hd by blast
  qed
  then have "trim z = x @ rest"
    using s by simp
  then show ?thesis
    using x assms by blast
qed

lemma take_9: "take 9 s = take 4 s @ take 4 (drop 4 s) @ take 1 (drop 8 s)"
proof -
  have "take 9 s = take (4 + 5) s"
    by simp
  also have "\<dots> = take 4 s @ take 5 (drop 4 s)"
    by (rule take_add)
  also have "take 5 (drop 4 s) = take (4 + 1) (drop 4 s)"
    by simp
  also have "\<dots> = take 4 (drop 4 s) @ take 1 (drop 4 (drop 4 s))"
    by (rule take_add)
  finally show ?thesis
    by simp
qed

lemma cve_at_SomeD:
  assumes "cve_at s = Some t"
  shows "\<exists>b. s = t @ b \<and> cve_shape t \<and> (b = [] \<or> \<not> is_digit (hd b))"
proof -
  let ?y = "take 4 (drop 4 s)"
  let ?n = "takeWhile is_digit (drop 9 s)"
  let ?b = "dropWhile is_digit (drop 9 s)"
  have c: "starts_with s (js ''CVE-'')" "length ?y = 4" "list_all is_digit ?y"
    "starts_with (drop 8 s) (js ''-'')" "?n \<noteq> []"
    and t: "t = take 9 s @ ?n"
    using assms unfolding cve_at_def Let_def by (simp_all split: if_splits)
  have l: "length (js ''CVE-'') = 4" "length (js ''-'') = 1"
    by (simp_all add: js_def)
  have h: "take 4 s = js ''CVE-''" "take 1 (drop 8 s) = js ''-''"
    using c(1,4) unfolding starts_with_def l .
  have t9: "take 9 s = js ''CVE-'' @ ?y @ js ''-''"
    unfolding take_9 [of s] h by simp
  have "cve_shape t"
    unfolding cve_shape_def t t9
    apply (rule exI [of _ ?y])
    apply (rule exI [of _ ?n])
    using c(2,3,5) by (simp add: list_all_takeWhile)
  moreover have "s = t @ ?b"
    unfolding t by simp
  moreover have "?b = [] \<or> \<not> is_digit (hd ?b)"
    by (rule dropWhile_hd)
  ultimately show ?thesis
    by (intro exI [of _ ?b] conjI)
qed

lemma cve_at_token:
  assumes "cve_shape t"
  shows "cve_at (t @ b) \<noteq> None"
proof -
  obtain y n where t: "t = js ''CVE-'' @ y @ js ''-'' @ n" and y: "length y = 4" "list_all is_digit y"
    and n: "n \<noteq> []" "list_all is_digit n"
    using assms unfolding cve_shape_def by (elim exE conjE)
  obtain nh nt where nh: "n = nh # nt" "is_digit nh"
    using n by (cases n) auto
  have d4: "drop 4 (t @ b) = y @ js ''-'' @ n @ b"
    unfolding t by (simp add: js_def)
  have s: "starts_with (t @ b) (js ''CVE-'')"
    unfolding t by (simp add: starts_with_def js_def)
  have "cve_at (t @ b) = Some (take 9 (t @ b) @ takeWhile is_digit (n @ b))"
    unfolding cve_at_def Let_def d4 using s y nh
    by (simp add: starts_with_def js_def)
  then show ?thesis by simp
qed

lemma cve_shape_not_Nil: "cve_shape t \<Longrightarrow> t \<noteq> []"
  unfolding cve_shape_def by (auto simp: js_def)

lemma cve_match_None_iff:
  "cve_match m = None \<longleftrightarrow> \<not> (\<exists>a t b. m = a @ t @ b \<and> cve_shape t)"
proof
  assume n: "cve_match m = None"
  show "\<not> (\<exists>a t b. m = a @ t @ b \<and> cve_shape t)"
  proof
    assume "\<exists>a t b. m = a @ t @ b \<and> cve_shape t"
    then obtain a t b where m: "m = a @ t @ b" and t: "cve_shape t"
      by (elim exE conjE)
    have "search cve_at (a @ (t @ b)) = None"
      using n unfolding cve_match_def m .
    then have "cve_at (t @ b) = None"
      by (rule search_NoneD)
    then show False
      using cve_at_token [OF t, of b] by simp
  qed
next
  assume n: "\<not> (\<exists>a t b. m = a @ t @ b \<and> cve_shape t)"
  show "cve_match m = None"
  proof (rule ccontr)
    assume "cve_match m \<noteq> None"
    then obtain t where "search cve_at m = Some t"
      unfolding cve_match_def by (cases "search cve_at m") auto
    then have "\<exists>a b. m = a @ b \<and> cve_at b = Some t"
      by (rule search_SomeD)
    then obtain a b where m: "m = a @ b" and c: "cve_at b = Some t"
      by (elim exE conjE)
    obtain b' where "b = t @ b'" "cve_shape t"
      using cve_at_SomeD [OF c] by (elim exE conjE)
    then have "m = a @ t @ b' \<and> cve_shape t"
      using m by simp
    then show False
      using n by blast
  qed
qed

lemma cve_match_SomeD:
  assumes "cve_match m = Some t"
  shows "\<exists>a b. m = a @ t @ b \<and> cve_shape t \<and> (b = [] \<or> \<not> is_digit (hd b))
           \<and> (\<forall>a' t' b'. m = a' @ t' @ b' \<and> cve_shape t' \<longrightarrow> length a \<le> length a')"
proof -
  have "\<exists>a b. m = a @ b \<and> cve_at b = Some t \<and> (\<forall>j < length a. cve_at (drop j m) = None)"
    using assms unfolding cve_match_def by (rule search_SomeD_first)
  then obtain a c where m: "m = a @ c" and c: "cve_at c = Some t"
    and first: "\<forall>j < length a. cve_at (drop j m) = None"
    by (elim exE conjE)
  obtain b where b: "c = t @ b" and t: "cve_shape t" and e: "b = [] \<or> \<not> is_digit (hd b)"
    using cve_at_SomeD [OF c] by (elim exE conjE)
  have least: "length a \<le> length a'" if d: "m = a' @ t' @ b'" and t': "cve_shape t'" for a' t' b'
  proof (rule ccontr)
    assume "\<not> length a \<le> length a'"
    then have "cve_at (drop (length a') m) = None"
      using first by simp
    moreover have "drop (length a') m = t' @ b'"
      unfolding d by simp
    ultimately show False
      using cve_at_token [OF t', of b'] by simp
  qed
  have m': "m = a @ t @ b"
    unfolding m b ..
  have all: "\<forall>a' t' b'. m = a' @ t' @ b' \<and> cve_shape t' \<longrightarrow> length a \<le> length a'"
    using least by blast
  show ?thesis
    apply (rule exI [of _ a])
    apply (rule exI [of _ b])
    apply (intro conjI)
       apply (rule m')
      apply (rule t)
     apply (rule e)
    apply (rule all)
    done
qed

text \<open>
  Claim C3. For a line of at least four fields the grammar gives an entry. When the
  raw message begins with an address prefix, the message that is classified is what
  follows that one prefix, trimmed, whatever it is; when the raw message begins with
  no such prefix, it is the raw message. The type is \<open>LOGIN\<close> when the message
  holds the marker \<open>LOGIN username=\<close> anywhere; otherwise, when the message starts
  with \<open>GET \<close>, it is \<open>GET \<close> and the run up to the next white space, or \<open>/\<close>
  when that run is empty; otherwise, when the message holds a CVE identifier, it is
  the leftmost one with all the digits that follow; otherwise it is the message, or
  \<open>other\<close> when the message is empty.
\<close>

theorem prefix_stripped_once_then_classified_in_order:
  assumes "4 \<le> length (split_char 0x7C line)"
  shows "\<exists>e. fortipot line = Some e
     \<and> (\<forall>x rest. rawMessage_of (split_char 0x7C line) = x @ rest \<and> addr_shape x
           \<longrightarrow> message_of line = trim rest)
     \<and> (\<not> (\<exists>x rest. rawMessage_of (split_char 0x7C line) = x @ rest \<and> addr_shape x)
           \<longrightarrow> message_of line = rawMessage_of (split_char 0x7C line))
     \<and> (sublist LOGIN_marker (message_of line) \<longrightarrow> eventType e = js ''LOGIN'')
     \<and> (\<not> sublist LOGIN_marker (message_of line) \<and> prefix (js ''GET '') (message_of line)
           \<longrightarrow> (\<exists>p r. message_of line = js ''GET '' @ p @ r
                  \<and> list_all (\<lambda>c. \<not> is_space c) p \<and> (r = [] \<or> is_space (hd r))
                  \<and> eventType e = js ''GET '' @ (if p = [] then js ''/'' else p)))
     \<and> (\<not> sublist LOGIN_marker (message_of line) \<and> \<not> prefix (js ''GET '') (message_of line)
         \<and> (\<exists>a t b. message_of line = a @ t @ b \<and> cve_shape t)
           \<longrightarrow> (\<exists>a b. message_of line = a @ eventType e @ b \<and> cve_shape (eventType e)
                  \<and> (b = [] \<or> \<not> is_digit (hd b))
                  \<and> (\<forall>a' t' b'. message_of line = a' @ t' @ b' \<and> cve_shape t'
                        \<longrightarrow> length a \<le> length a')))
     \<and> (\<not> sublist LOGIN_marker (message_of line) \<and> \<not> prefix (js ''GET '') (message_of line)
         \<and> \<not> (\<exists>a t b. message_of line = a @ t @ b \<and> cve_shape t)
           \<longrightarrow> eventType e = (if message_of line = [] then js ''other'' else message_of line))"
proof -
  let ?raw = "rawMessage_of (split_char 0x7C line)"
  let ?m = "message_of line"
  obtain e where f: "fortipot line = Some e"
    and et: "eventType e = (if classify ?m = [] then js ''other'' else classify ?m)"
    using fortipot_Some [OF assms] by simp
  have raw: "?raw = trim (join (js ''|'') (drop 3 (split_char 0x7C line)))"
    by (simp add: rawMessage_of_def)
  have c1: "?m = trim rest" if "?raw = x @ rest" and "addr_shape x" for x rest
    using that stripAddrPrefix_shape [of x rest] by (simp add: message_of_def)
  have c2: "?m = ?raw" if "\<not> (\<exists>x rest. ?raw = x @ rest \<and> addr_shape x)"
    using that unfolding message_of_def raw by (rule stripAddrPrefix_no_prefix)
  have c3: "eventType e = js ''LOGIN''" if "sublist LOGIN_marker ?m"
  proof -
    have "classify ?m = js ''LOGIN''"
      using that by (simp add: classify_def str_includes_sublist)
    then show ?thesis
      unfolding et by (simp add: js_def)
  qed
  have c4: "\<exists>p r. ?m = js ''GET '' @ p @ r
                  \<and> list_all (\<lambda>c. \<not> is_space c) p \<and> (r = [] \<or> is_space (hd r))
                  \<and> eventType e = js ''GET '' @ (if p = [] then js ''/'' else p)"
    if nl: "\<not> sublist LOGIN_marker ?m" and g: "prefix (js ''GET '') ?m"
  proof -
    let ?p = "takeWhile (\<lambda>c. \<not> is_space c) (drop 4 ?m)"
    let ?r = "dropWhile (\<lambda>c. \<not> is_space c) (drop 4 ?m)"
    obtain z where z: "?m = js ''GET '' @ z"
      using g unfolding prefix_def by (elim exE)
    have d: "drop 4 ?m = z"
      unfolding z by (simp add: js_def)
    have cl: "classify ?m = js ''GET '' @ (if ?p = [] then js ''/'' else ?p)"
      using nl g by (simp add: classify_def str_includes_sublist starts_with_prefix Let_def)
    have ne: "classify ?m \<noteq> []"
      unfolding cl by (simp add: js_def)
    have e1: "eventType e = js ''GET '' @ (if ?p = [] then js ''/'' else ?p)"
      unfolding et if_not_P [OF ne] by (rule cl)
    have e2: "?m = js ''GET '' @ ?p @ ?r"
      using z d by simp
    have e3: "list_all (\<lambda>c. \<not> is_space c) ?p"
      by (rule list_all_takeWhile)
    have e4: "?r = [] \<or> is_space (hd ?r)"
      using dropWhile_hd [of "\<lambda>c. \<not> is_space c" "drop 4 ?m"] by simp
    show ?thesis
      apply (rule exI [of _ ?p])
      apply (rule exI [of _ ?r])
      apply (intro conjI)
         apply (rule e2)
        apply (rule e3)
       apply (rule e4)
      apply (rule e1)
      done
  qed
  have c5: "\<exists>a b. ?m = a @ eventType e @ b \<and> cve_shape (eventType e)
                  \<and> (b = [] \<or> \<not> is_digit (hd b))
                  \<and> (\<forall>a' t' b'. ?m = a' @ t' @ b' \<and> cve_shape t' \<longrightarrow> length a \<le> length a')"
    if nl: "\<not> sublist LOGIN_marker ?m" and ng: "\<not> prefix (js ''GET '') ?m"
      and ex: "\<exists>a t b. ?m = a @ t @ b \<and> cve_shape t"
  proof -
    have "cve_match ?m \<noteq> None"
      using ex by (simp add: cve_match_None_iff)
    then obtain t where t: "cve_match ?m = Some t"
      by (cases "cve_match ?m") auto
    have cl: "classify ?m = t"
      using nl ng t by (simp add: classify_def str_includes_sublist starts_with_prefix)
    have d: "\<exists>a b. ?m = a @ t @ b \<and> cve_shape t \<and> (b = [] \<or> \<not> is_digit (hd b))
           \<and> (\<forall>a' t' b'. ?m = a' @ t' @ b' \<and> cve_shape t' \<longrightarrow> length a \<le> length a')"
      using t by (rule cve_match_SomeD)
    then have "cve_shape t"
      by (elim exE conjE)
    then have "t \<noteq> []"
      by (rule cve_shape_not_Nil)
    then have "eventType e = t"
      unfolding et cl by simp
    then show ?thesis
      using d by simp
  qed
  have c6: "eventType e = (if ?m = [] then js ''other'' else ?m)"
    if nl: "\<not> sublist LOGIN_marker ?m" and ng: "\<not> prefix (js ''GET '') ?m"
      and nx: "\<not> (\<exists>a t b. ?m = a @ t @ b \<and> cve_shape t)"
  proof -
    have "cve_match ?m = None"
      using nx by (simp add: cve_match_None_iff)
    then have "classify ?m = ?m"
      using nl ng by (simp add: classify_def str_includes_sublist starts_with_prefix)
    then show ?thesis
      unfolding et by simp
  qed
  show ?thesis
    apply (rule exI [of _ e])
    apply (intro conjI allI impI)
          apply (rule f)
         apply (erule conjE, erule (1) c1)
        apply (erule c2)
       apply (erule c3)
      apply (erule conjE, erule (1) c4)
     apply (elim conjE, erule (2) c5)
    apply (elim conjE, erule (2) c6)
    done
qed

theorem prefix_stripped_once_then_classified_in_order_witness:
  "4 \<le> length (split_char 0x7C prefixed_get_line)
   \<and> rawMessage_of (split_char 0x7C prefixed_get_line)
       = (js ''('' @ [] @ [0x27] @ js ''5.6.7.8'' @ [0x27] @ [] @ js '','' @ js '' '' @ js ''443''
            @ js '')'') @ js '' GET /x''
   \<and> addr_shape (js ''('' @ [] @ [0x27] @ js ''5.6.7.8'' @ [0x27] @ [] @ js '','' @ js '' ''
                      @ js ''443'' @ js '')'')
   \<and> message_of prefixed_get_line = js ''GET /x''
   \<and> \<not> sublist LOGIN_marker (message_of prefixed_get_line)
   \<and> prefix (js ''GET '') (message_of prefixed_get_line)
   \<and> (\<exists>e. fortipot prefixed_get_line = Some e \<and> eventType e = js ''GET /x'')"
proof -
  let ?x = "js ''('' @ [] @ [0x27] @ js ''5.6.7.8'' @ [0x27] @ [] @ js '','' @ js '' ''
              @ js ''443'' @ js '')''"
  have h1: "4 \<le> length (split_char 0x7C prefixed_get_line)"
    by code_simp
  have hx: "rawMessage_of (split_char 0x7C prefixed_get_line) = ?x @ js '' GET /x''"
    by code_simp
  have hp: "addr_shape ?x"
    by (rule addr_shapeI)
      (simp_all add: js_def is_space_def is_ip_char_def is_digit_def quote_opt_def)
  obtain e where f: "fortipot prefixed_get_line = Some e"
    and c1: "\<forall>x rest. rawMessage_of (split_char 0x7C prefixed_get_line) = x @ rest \<and> addr_shape x
               \<longrightarrow> message_of prefixed_get_line = trim rest"
    and c4: "\<not> sublist LOGIN_marker (message_of prefixed_get_line)
             \<and> prefix (js ''GET '') (message_of prefixed_get_line)
           \<longrightarrow> (\<exists>p r. message_of prefixed_get_line = js ''GET '' @ p @ r
                  \<and> list_all (\<lambda>c. \<not> is_space c) p \<and> (r = [] \<or> is_space (hd r))
                  \<and> eventType e = js ''GET '' @ (if p = [] then js ''/'' else p))"
    using prefix_stripped_once_then_classified_in_order [OF h1] by (elim exE conjE)
  have "message_of prefixed_get_line = trim (js '' GET /x'')"
    using c1 hx hp by blast
  moreover have "trim (js '' GET /x'') = js ''GET /x''"
    by code_simp
  ultimately have m: "message_of prefixed_get_line = js ''GET /x''"
    by simp
  have "\<not> str_includes (js ''GET /x'') LOGIN_marker"
    by code_simp
  then have nl: "\<not> sublist LOGIN_marker (message_of prefixed_get_line)"
    unfolding m by (simp add: str_includes_sublist)
  have "starts_with (js ''GET /x'') (js ''GET '')"
    by code_simp
  then have g: "prefix (js ''GET '') (message_of prefixed_get_line)"
    unfolding m by (simp add: starts_with_prefix)
  obtain p r where d: "message_of prefixed_get_line = js ''GET '' @ p @ r"
    and hr: "r = [] \<or> is_space (hd r)"
    and ev: "eventType e = js ''GET '' @ (if p = [] then js ''/'' else p)"
    using c4 nl g by blast
  have pr: "p @ r = js ''/x''"
    using d unfolding m by (simp add: js_def)
  have rn: "r = []"
  proof (rule ccontr)
    assume n: "r \<noteq> []"
    then have "hd r \<in> set (p @ r)"
      by (cases r) simp_all
    then have "hd r = 0x2F \<or> hd r = 0x78"
      unfolding pr by (simp add: js_def)
    then have "\<not> is_space (hd r)"
      by (auto simp: is_space_def)
    then show False
      using hr n by simp
  qed
  have p: "p = js ''/x''"
    using pr rn by simp
  have "eventType e = js ''GET /x''"
    unfolding ev p by (simp add: js_def)
  then have "\<exists>e. fortipot prefixed_get_line = Some e \<and> eventType e = js ''GET /x''"
    using f by blast
  then show ?thesis
    using h1 hx hp m nl g by blast
qed

end
